theory Spec2Isabelle
  imports Complex_Main "HOL-Library.List_Lexorder" "HOL-Library.Multiset"
begin

section \<open>Hybrid retrieval pipeline of \<open>B_retriever.py\<close>\<close>

text \<open>
  A shallow embedding of \<open>src/B_retriever.py\<close>. The third-party collaborators of the
  module are parameters of the model:
  \<^item> the tokenizer (\<open>tiktoken\<close>): \<open>enc\<close> and \<open>dec\<close>;
  \<^item> the sentence splitter (\<open>nltk.sent_tokenize\<close>): \<open>sent_tokenize\<close>;
  \<^item> the fingerprint (\<open>hashlib.md5(...).hexdigest()\<close>): \<open>hash_text\<close>;
  \<^item> the embedding provider (\<open>OpenAIEmbeddings.embed_documents\<close>): \<open>provider\<close>.

  Files, the provider's call log, the rows added to the FAISS index and \<open>time.sleep\<close> are
  an explicit \<open>world\<close> that every effectful function takes and returns; every \<open>raise\<close> is
  an \<open>Inl\<close> result.
\<close>

subsection \<open>Strings\<close>

text \<open>
  A Python \<open>str\<close> is a sequence of Unicode code points: \<open>len\<close>, slicing, \<open>strip\<close> and
  the ordering of \<open>sorted\<close> all work on code points. \<open>str\<close> turns a literal of ASCII
  characters into its code points.
\<close>

type_synonym ustr = "nat list"

definition str :: "char list \<Rightarrow> ustr" where
  "str s = map of_char s"

text \<open>
  The white space of \<open>str.strip()\<close>, \<open>str.isspace()\<close> and the \<open>\s\<close> of \<open>re\<close> on a \<open>str\<close>
  pattern: U+0009 to U+000D, U+001C to U+0020, U+0085, U+00A0, U+1680, U+2000 to U+200A,
  U+2028, U+2029, U+202F, U+205F and U+3000.
\<close>

definition is_space :: "nat \<Rightarrow> bool" where
  "is_space c =
     ((9 \<le> c \<and> c \<le> 13) \<or> (28 \<le> c \<and> c \<le> 32) \<or> c = 133 \<or> c = 160 \<or> c = 5760
      \<or> (8192 \<le> c \<and> c \<le> 8202) \<or> c = 8232 \<or> c = 8233 \<or> c = 8239 \<or> c = 8287
      \<or> c = 12288)"

definition strip :: "ustr \<Rightarrow> ustr" where
  "strip s = rev (dropWhile is_space (rev (dropWhile is_space s)))"

text \<open>\<open>" ".join(buffer)\<close>\<close>

fun join_sp :: "ustr list \<Rightarrow> ustr" where
  "join_sp [] = []"
| "join_sp [x] = x"
| "join_sp (x # y # zs) = x @ (str '' '') @ join_sp (y # zs)"

text \<open>\<open>"\n".join(page_texts)\<close>\<close>

fun join_nl :: "ustr list \<Rightarrow> ustr" where
  "join_nl [] = []"
| "join_nl [x] = x"
| "join_nl (x # y # zs) = x @ [10] @ join_nl (y # zs)"

text \<open>\<open>s[-n:]\<close> for \<open>n > 0\<close>: the last \<open>n\<close> characters, the whole string when it is shorter.\<close>

definition last_chars :: "nat \<Rightarrow> ustr \<Rightarrow> ustr" where
  "last_chars n s = drop (length s - n) s"

text \<open>
  \<open>split_sentences\<close>: \<open>re.split(r'(?<=[.!?])\s+', text.strip())\<close>. A maximal run of white
  space that follows one of \<open>.!?\<close> separates two pieces; any other white space stays in
  its piece. \<open>split_scan cur s\<close> scans \<open>s\<close> with the current piece \<open>cur\<close>. The module
  defines this splitter and the chunker calls \<open>nltk.sent_tokenize\<close> instead; the
  evaluations below take it for the sentence splitter.
\<close>

definition is_stop :: "nat \<Rightarrow> bool" where
  "is_stop c = (c \<in> set (str ''.!?''))"

function split_scan :: "ustr \<Rightarrow> ustr \<Rightarrow> ustr list" where
  "split_scan cur [] = [cur]"
| "split_scan cur (c # cs) =
     (if is_space c \<and> cur \<noteq> [] \<and> is_stop (last cur)
      then cur # split_scan [] (dropWhile is_space cs)
      else split_scan (cur @ [c]) cs)"
  by pat_completeness auto
termination
  by (relation "measure (\<lambda>(cur, s). length s)")
     (auto simp: le_imp_less_Suc length_dropWhile_le)

definition split_sentences :: "ustr \<Rightarrow> ustr list" where
  "split_sentences text = split_scan [] (strip text)"

subsection \<open>Documents and chunks\<close>

text \<open>\<open>langchain_core.documents.Document\<close>: a text and its metadata.\<close>

record 'm document =
  page_content :: ustr
  metadata :: 'm

subsection \<open>\<open>semantic_token_chunk_documents\<close>\<close>

text \<open>
  The state of the inner loop is \<open>(buffer, buffer_token_count)\<close> together with the output
  list \<open>chunked_docs\<close>. \<open>max_tokens\<close> and \<open>overlap_tokens\<close> are Python integers.
\<close>

type_synonym 'm chunk_state = "ustr list \<times> nat \<times> 'm document list"

definition chunk_step ::
  "(ustr \<Rightarrow> 't list) \<Rightarrow> ('t list \<Rightarrow> ustr) \<Rightarrow> int \<Rightarrow> int \<Rightarrow> 'm \<Rightarrow>
   'm chunk_state \<Rightarrow> ustr \<Rightarrow> 'm chunk_state" where
  "chunk_step enc dec max_tokens overlap_tokens md st sentence =
     (case st of (buffer, buffer_token_count, chunked_docs) \<Rightarrow>
       let sentence_len = length (enc sentence) in
       if int buffer_token_count + int sentence_len \<le> max_tokens
       then (buffer @ [sentence], buffer_token_count + sentence_len, chunked_docs)
       else
         let chunked_docs' =
               chunked_docs @ [\<lparr>page_content = join_sp buffer, metadata = md\<rparr>] in
         if overlap_tokens > 0
         then
           let overlap_text = last_chars (nat overlap_tokens) (join_sp buffer);
               overlap_tokens_list = enc overlap_text;
               buffer' = [dec overlap_tokens_list] @ [sentence]
           in (buffer', length (enc (join_sp buffer')), chunked_docs')
         else ([sentence], sentence_len, chunked_docs'))"

definition chunk_document ::
  "(ustr \<Rightarrow> 't list) \<Rightarrow> ('t list \<Rightarrow> ustr) \<Rightarrow> (ustr \<Rightarrow> ustr list) \<Rightarrow> int \<Rightarrow> int \<Rightarrow>
   'm document list \<Rightarrow> 'm document \<Rightarrow> 'm document list" where
  "chunk_document enc dec sent_tokenize max_tokens overlap_tokens chunked_docs doc =
     (let text = page_content doc;
          md = metadata doc;
          sentences = sent_tokenize text
      in case foldl (chunk_step enc dec max_tokens overlap_tokens md) ([], 0, chunked_docs) sentences
         of (buffer, buffer_token_count, chunked_docs') \<Rightarrow>
           if buffer \<noteq> []
           then chunked_docs' @ [\<lparr>page_content = join_sp buffer, metadata = md\<rparr>]
           else chunked_docs')"

definition semantic_token_chunk_documents ::
  "(ustr \<Rightarrow> 't list) \<Rightarrow> ('t list \<Rightarrow> ustr) \<Rightarrow> (ustr \<Rightarrow> ustr list) \<Rightarrow>
   'm document list \<Rightarrow> int \<Rightarrow> int \<Rightarrow> 'm document list" where
  "semantic_token_chunk_documents enc dec sent_tokenize documents max_tokens overlap_tokens =
     foldl (chunk_document enc dec sent_tokenize max_tokens overlap_tokens) [] documents"

subsection \<open>\<open>load_documents\<close>\<close>

text \<open>
  A record file, parsed: \<open>data.get("csv_metadata", {})\<close> and \<open>data.get("pdf_data", [])\<close>
  may be absent, and so may the \<open>text\<close> of a page. The keys that \<open>load_documents\<close> reads
  from \<open>csv_metadata\<close> are Korean field names, some written with a space
  (business name, announcement number, announcement revision, budget amount, issuing
  organisation, participation start, participation end, summary, file name); other keys
  of the record are never read. A parsed record is an object whose \<open>csv_metadata\<close>, when
  present, maps keys to strings, and whose \<open>pdf_data\<close>, when present, is a list of pages
  whose \<open>text\<close>, when present, is a string.
\<close>

datatype csv_key =
  K_biz_name | K_notice_no | K_notice_round | K_biz_amount | K_agency
  | K_bid_start | K_bid_end | K_biz_summary | K_file_name

record json_record =
  csv_metadata :: "(csv_key \<rightharpoonup> ustr) option"
  pdf_data :: "ustr option list option"

text \<open>The metadata dictionary of a loaded Document: ten fixed keys.\<close>

record doc_meta =
  m_biz_name :: ustr
  m_notice_no :: ustr
  m_notice_round :: ustr
  m_biz_amount :: ustr
  m_agency :: ustr
  m_bid_start :: ustr
  m_bid_end :: ustr
  m_biz_summary :: ustr
  m_file_name :: ustr
  m_source :: ustr

datatype error =
  JSONDecodeError | NoDocuments | NoChunks | ApiKeyMissing | NoTexts | AllFiltered
  | ProviderFailure | RetriesExhausted | IndexError | DimensionMismatch | ValueError
  | TypeError

text \<open>
  A directory: its entries, each a file name with the parsed content of the file
  (\<open>None\<close> when \<open>json.load\<close> raises on it).
\<close>

type_synonym directory = "(ustr \<times> json_record option) list"

definition ends_with :: "ustr \<Rightarrow> ustr \<Rightarrow> bool" where
  "ends_with suf s = (length suf \<le> length s \<and> drop (length s - length suf) s = suf)"

text \<open>\<open>xs[:n]\<close> for a Python integer \<open>n\<close>.\<close>

definition py_take :: "int \<Rightarrow> 'a list \<Rightarrow> 'a list" where
  "py_take n xs = (if 0 \<le> n then take (nat n) xs else take (length xs - nat (- n)) xs)"

text \<open>\<open>d.get(k, "")\<close>\<close>

definition get_or_empty :: "('k \<rightharpoonup> ustr) \<Rightarrow> 'k \<Rightarrow> ustr" where
  "get_or_empty d k = (case d k of None \<Rightarrow> [] | Some v \<Rightarrow> v)"

definition page_texts_of :: "json_record \<Rightarrow> ustr list" where
  "page_texts_of data =
     (let pages = (case pdf_data data of None \<Rightarrow> [] | Some ps \<Rightarrow> ps);
          text_of = (\<lambda>page. strip (case page of None \<Rightarrow> [] | Some t \<Rightarrow> t))
      in map text_of (filter (\<lambda>page. text_of page \<noteq> []) pages))"

definition document_of :: "ustr \<Rightarrow> json_record \<Rightarrow> doc_meta document" where
  "document_of filename data =
     (let md = (case csv_metadata data of None \<Rightarrow> Map.empty | Some m \<Rightarrow> m)
      in \<lparr>page_content = join_nl (page_texts_of data),
          metadata = \<lparr>m_biz_name = get_or_empty md K_biz_name,
                      m_notice_no = get_or_empty md K_notice_no,
                      m_notice_round = get_or_empty md K_notice_round,
                      m_biz_amount = get_or_empty md K_biz_amount,
                      m_agency = get_or_empty md K_agency,
                      m_bid_start = get_or_empty md K_bid_start,
                      m_bid_end = get_or_empty md K_bid_end,
                      m_biz_summary = get_or_empty md K_biz_summary,
                      m_file_name = get_or_empty md K_file_name,
                      m_source = filename\<rparr>\<rparr>)"

text \<open>The loop over the files: the first file that does not parse raises.\<close>

fun load_files ::
  "(ustr \<times> json_record option) list \<Rightarrow> doc_meta document list \<Rightarrow>
   error + doc_meta document list" where
  "load_files [] all_docs = Inr all_docs"
| "load_files ((filename, None) # rest) all_docs = Inl JSONDecodeError"
| "load_files ((filename, Some data) # rest) all_docs =
     load_files rest
       (if join_nl (page_texts_of data) \<noteq> []
        then all_docs @ [document_of filename data] else all_docs)"

definition selected_files :: "directory \<Rightarrow> int option \<Rightarrow> (ustr \<times> json_record option) list" where
  "selected_files folder limit_files =
     (let files = sort_key fst (filter (\<lambda>(f, c). ends_with (str ''.json'') f) folder)
      in case limit_files of
           None \<Rightarrow> files
         | Some n \<Rightarrow> if n \<noteq> 0 then py_take n files else files)"

definition load_documents :: "directory \<Rightarrow> int option \<Rightarrow> error + doc_meta document list" where
  "load_documents folder limit_files = load_files (selected_files folder limit_files) []"

subsection \<open>The world: cache file, index directory, provider\<close>

type_synonym vec = "real list"

text \<open>
  A Python dictionary keeps its keys in insertion order; assigning to a key that is
  present replaces the value in place.
\<close>

type_synonym ('k, 'v) dict = "('k \<times> 'v) list"

fun dict_set :: "'k \<Rightarrow> 'v \<Rightarrow> ('k, 'v) dict \<Rightarrow> ('k, 'v) dict" where
  "dict_set k v [] = [(k, v)]"
| "dict_set k v ((k', v') # d) = (if k' = k then (k, v) # d else (k', v') # dict_set k v d)"

type_synonym cache = "(ustr, vec) dict"

datatype file_state = Absent | Corrupt | Present cache

text \<open>
  What a run does that can be seen from outside: a call of the provider with its texts, a
  sleep of so many seconds, a write of the cache file with the cache written, the rows
  handed to \<open>index.add\<close>, and the save of the index directory.
\<close>

datatype event =
  ProviderCall "ustr list" | Sleep nat | CacheWrite cache | IndexAdd "vec list" | IndexSave

text \<open>
  A FAISS store as \<open>FAISS.load_local\<close> reads it from the index directory: the vectors of
  the flat index and the documents beside them.
\<close>

record 'm store =
  store_dim :: nat
  store_vectors :: "vec list"
  store_documents :: "'m document list"

text \<open>
  The world: the cache file (absent, unparsable, or holding a cache), the index directory
  (absent, or holding a saved store), and the trace of the events so far, the latest
  last.
\<close>

record 'm world =
  cache_file :: file_state
  index_dir :: "'m store option"
  trace :: "event list"

text \<open>
  The provider answers a call from the number of calls made before it and the texts:
  \<open>None\<close> is a raised exception.
\<close>

type_synonym provider = "nat \<Rightarrow> ustr list \<Rightarrow> vec list option"

fun is_call :: "event \<Rightarrow> bool" where
  "is_call (ProviderCall ts) = True"
| "is_call e = False"

fun is_cache_write :: "event \<Rightarrow> bool" where
  "is_cache_write (CacheWrite c) = True"
| "is_cache_write e = False"

definition n_calls :: "event list \<Rightarrow> nat" where
  "n_calls tr = length (filter is_call tr)"

definition emit :: "event \<Rightarrow> 'm world \<Rightarrow> 'm world" where
  "emit e w = w\<lparr>trace := trace w @ [e]\<rparr>"

definition embed_documents :: "provider \<Rightarrow> ustr list \<Rightarrow> 'm world \<Rightarrow> vec list option \<times> 'm world" where
  "embed_documents p texts w = (p (n_calls (trace w)) texts, emit (ProviderCall texts) w)"

text \<open>The call as \<open>get_retriever\<close> makes it: an exception of the provider propagates.\<close>

definition embed_direct :: "provider \<Rightarrow> ustr list \<Rightarrow> 'm world \<Rightarrow> (error + vec list) \<times> 'm world" where
  "embed_direct p texts w =
     (case embed_documents p texts w of
        (Some vs, w') \<Rightarrow> (Inr vs, w')
      | (None, w') \<Rightarrow> (Inl ProviderFailure, w'))"

text \<open>
  \<open>embed_with_retry\<close> of \<open>build_faiss_index\<close>: \<open>retry_from p texts r attempt\<close> runs the
  \<open>r\<close> attempts that remain, the next one numbered \<open>attempt\<close>.
\<close>

fun retry_from :: "provider \<Rightarrow> ustr list \<Rightarrow> nat \<Rightarrow> nat \<Rightarrow> 'm world \<Rightarrow> (error + vec list) \<times> 'm world" where
  "retry_from p texts 0 attempt w = (Inl RetriesExhausted, w)"
| "retry_from p texts (Suc r) attempt w =
     (case embed_documents p texts w of
        (Some vs, w') \<Rightarrow> (Inr vs, w')
      | (None, w') \<Rightarrow> retry_from p texts r (Suc attempt) (emit (Sleep (2 ^ attempt)) w'))"

definition embed_with_retry :: "provider \<Rightarrow> nat \<Rightarrow> ustr list \<Rightarrow> 'm world \<Rightarrow> (error + vec list) \<times> 'm world" where
  "embed_with_retry p max_retries texts w = retry_from p texts max_retries 0 w"

definition load_cache :: "'m world \<Rightarrow> error + cache" where
  "load_cache w =
     (case cache_file w of
        Absent \<Rightarrow> Inr []
      | Corrupt \<Rightarrow> Inl JSONDecodeError
      | Present c \<Rightarrow> Inr c)"

subsection \<open>Deduplication and the batch-embedding loop\<close>

text \<open>\<open>{doc.page_content.strip(): doc.metadata for doc in docs}\<close>\<close>

definition unique_pairs :: "'m document list \<Rightarrow> (ustr, 'm) dict" where
  "unique_pairs docs = foldl (\<lambda>d doc. dict_set (strip (page_content doc)) (metadata doc) d) [] docs"

text \<open>\<open>[(t, m) for t, m in zip(texts, metadatas) if len(enc.encode(t)) > n]\<close>\<close>

definition filter_short :: "(ustr \<Rightarrow> 't list) \<Rightarrow> nat \<Rightarrow> (ustr, 'm) dict \<Rightarrow> (ustr, 'm) dict" where
  "filter_short enc n pairs = filter (\<lambda>(t, m). length (enc t) > n) pairs"

text \<open>\<open>range(0, len(texts), n)\<close> with \<open>texts[i:i + n]\<close>, for \<open>n > 0\<close>.\<close>

function batches :: "nat \<Rightarrow> 'a list \<Rightarrow> 'a list list" where
  "batches n xs = (if n = 0 \<or> xs = [] then [] else take n xs # batches n (drop n xs))"
  by pat_completeness auto
termination
  by (relation "measure (\<lambda>(n, xs). length xs)") auto

declare batches.simps [simp del]

text \<open>
  The loop state: \<open>cache\<close>, \<open>embeddings\<close> and \<open>new_cache_entries\<close>. The inner loop over a
  batch appends a cache hit to \<open>embeddings\<close> at once and queues a miss.
\<close>

type_synonym loop_state = "cache \<times> vec list \<times> cache"

definition scan_text ::
  "(ustr \<Rightarrow> ustr) \<Rightarrow> cache \<Rightarrow> vec list \<times> ustr list \<times> ustr list \<Rightarrow> ustr \<Rightarrow>
   vec list \<times> ustr list \<times> ustr list" where
  "scan_text hash_text cache acc text =
     (case acc of (embeddings, batch_to_embed, cache_hits) \<Rightarrow>
        let h = hash_text text in
        (case map_of cache h of
           Some v \<Rightarrow> (embeddings @ [v], batch_to_embed, cache_hits)
         | None \<Rightarrow> (embeddings, batch_to_embed @ [text], cache_hits @ [h])))"

definition store_entries :: "(ustr \<times> vec) list \<Rightarrow> cache \<Rightarrow> cache" where
  "store_entries pairs c = foldl (\<lambda>d (h, emb). dict_set h emb d) c pairs"

definition embed_queued ::
  "(ustr list \<Rightarrow> 'm world \<Rightarrow> (error + vec list) \<times> 'm world) \<Rightarrow> (ustr \<Rightarrow> 't list) \<Rightarrow>
   ustr list \<Rightarrow> 'm world \<Rightarrow> (error + vec list) \<times> 'm world" where
  "embed_queued call enc batch_to_embed w =
     (let total_tokens = sum_list (map (\<lambda>t. length (enc t)) batch_to_embed) in
      if total_tokens > 280000
      then
        let mid = length batch_to_embed div 2 in
        case call (take mid batch_to_embed) w of
          (Inl e, w1) \<Rightarrow> (Inl e, w1)
        | (Inr embs1, w1) \<Rightarrow>
            (case call (drop mid batch_to_embed) w1 of
               (Inl e, w2) \<Rightarrow> (Inl e, w2)
             | (Inr embs2, w2) \<Rightarrow> (Inr (embs1 @ embs2), w2))
      else call batch_to_embed w)"

definition process_batch ::
  "(ustr list \<Rightarrow> 'm world \<Rightarrow> (error + vec list) \<times> 'm world) \<Rightarrow> (ustr \<Rightarrow> 't list) \<Rightarrow>
   (ustr \<Rightarrow> ustr) \<Rightarrow> loop_state \<Rightarrow> 'm world \<Rightarrow> ustr list \<Rightarrow>
   (error + loop_state) \<times> 'm world" where
  "process_batch call enc hash_text st w batch =
     (case st of (cache, embeddings, new_cache_entries) \<Rightarrow>
        case foldl (scan_text hash_text cache) (embeddings, [], []) batch of
          (embeddings', batch_to_embed, cache_hits) \<Rightarrow>
            if batch_to_embed \<noteq> []
            then
              case embed_queued call enc batch_to_embed w of
                (Inl e, w') \<Rightarrow> (Inl e, w')
              | (Inr embs, w') \<Rightarrow>
                  (Inr (store_entries (zip cache_hits embs) cache,
                        embeddings' @ embs,
                        store_entries (zip cache_hits embs) new_cache_entries), w')
            else (Inr (cache, embeddings', new_cache_entries), w))"

fun embed_batches ::
  "(ustr list \<Rightarrow> 'm world \<Rightarrow> (error + vec list) \<times> 'm world) \<Rightarrow> (ustr \<Rightarrow> 't list) \<Rightarrow>
   (ustr \<Rightarrow> ustr) \<Rightarrow> loop_state \<Rightarrow> 'm world \<Rightarrow> ustr list list \<Rightarrow>
   (error + loop_state) \<times> 'm world" where
  "embed_batches call enc hash_text st w [] = (Inr st, w)"
| "embed_batches call enc hash_text st w (batch # rest) =
     (case process_batch call enc hash_text st w batch of
        (Inl e, w') \<Rightarrow> (Inl e, w')
      | (Inr st', w') \<Rightarrow> embed_batches call enc hash_text st' w' rest)"

text \<open>\<open>if new_cache_entries: json.dump(cache, open(cache_file, "w"))\<close>, after the loop.\<close>

definition persist_cache :: "cache \<Rightarrow> cache \<Rightarrow> 'm world \<Rightarrow> 'm world" where
  "persist_cache cache new_cache_entries w =
     (if new_cache_entries \<noteq> []
      then emit (CacheWrite cache) (w\<lparr>cache_file := Present cache\<rparr>)
      else w)"

text \<open>
  The flat index: \<open>dim = len(embeddings[0])\<close> raises on an empty list, and
  \<open>np.array(embeddings).astype("float32")\<close> takes rows of one length only. \<open>index.add\<close>
  then receives the rows in the order of \<open>embeddings\<close>; the event records the rows as
  they are handed over (the index keeps them rounded to single precision). Replicating
  the index on accelerators does not change what it holds.
\<close>

definition index_add :: "vec list \<Rightarrow> 'm world \<Rightarrow> (error + vec list) \<times> 'm world" where
  "index_add embeddings w =
     (case embeddings of
        [] \<Rightarrow> (Inl IndexError, w)
      | e0 # es \<Rightarrow>
          if list_all (\<lambda>e. length e = length e0) embeddings
          then (Inr embeddings, emit (IndexAdd embeddings) w)
          else (Inl DimensionMismatch, w))"

definition docs_of_pairs :: "(ustr, 'm) dict \<Rightarrow> 'm document list" where
  "docs_of_pairs pairs = map (\<lambda>(t, m). \<lparr>page_content = t, metadata = m\<rparr>) pairs"

text \<open>
  \<open>FAISS(embedding=embedding, index=index, documents=[...])\<close>: the constructor of
  \<open>langchain_community.vectorstores.FAISS\<close> has the parameters \<open>embedding_function\<close>,
  \<open>index\<close>, \<open>docstore\<close> and \<open>index_to_docstore_id\<close>, and none named \<open>embedding\<close> or
  \<open>documents\<close>. Once its arguments are evaluated the call raises \<open>TypeError\<close>, whatever
  they are: no store is built from the index and the documents.
\<close>

definition faiss_constructor :: "vec list \<Rightarrow> 'm document list \<Rightarrow> error + 'm store" where
  "faiss_constructor index documents = Inl TypeError"

subsection \<open>\<open>get_retriever\<close> and \<open>build_faiss_index\<close>\<close>

text \<open>
  The retriever that \<open>get_retriever\<close> returns: the sub-retrievers in their order, and the
  weights beside them.
\<close>

datatype 'm sub_retriever = BM25 "'m document list" | FaissSimilarity "'m store" int

record 'm ensemble =
  retrievers :: "'m sub_retriever list"
  weights :: "real list"

text \<open>
  The embedding step of \<open>get_retriever\<close> (the branch with no index to reuse, up to the
  write of the cache file): deduplicate, filter, embed in batches of 100 with the
  provider called directly, write the cache. It leaves \<open>texts\<close> with \<open>metadatas\<close>, and
  \<open>embeddings\<close>.
\<close>

definition embedding_step ::
  "(ustr \<Rightarrow> 't list) \<Rightarrow> (ustr \<Rightarrow> ustr) \<Rightarrow> provider \<Rightarrow> 'm document list \<Rightarrow> cache \<Rightarrow>
   'm world \<Rightarrow> (error + (ustr, 'm) dict \<times> vec list) \<times> 'm world" where
  "embedding_step enc hash_text p chunks cache w =
     (let pairs = unique_pairs chunks in
      if pairs = [] then (Inl NoTexts, w)
      else
        let filtered = filter_short enc 2 pairs in
        if filtered = [] then (Inl AllFiltered, w)
        else
          case embed_batches (embed_direct p) enc hash_text (cache, [], []) w
                 (batches 100 (map fst filtered)) of
            (Inl e, w') \<Rightarrow> (Inl e, w')
          | (Inr (cache', embeddings, new_cache_entries), w') \<Rightarrow>
              (Inr (filtered, embeddings), persist_cache cache' new_cache_entries w'))"

text \<open>
  The whole branch: the embedding step, the rows added to the index, the constructor
  call, and the save of the store, which the constructor's exception leaves out of reach.
\<close>

definition embed_and_index ::
  "(ustr \<Rightarrow> 't list) \<Rightarrow> (ustr \<Rightarrow> ustr) \<Rightarrow> provider \<Rightarrow> 'm document list \<Rightarrow> cache \<Rightarrow>
   'm world \<Rightarrow> (error + 'm store) \<times> 'm world" where
  "embed_and_index enc hash_text p chunks cache w =
     (case embedding_step enc hash_text p chunks cache w of
        (Inl e, w') \<Rightarrow> (Inl e, w')
      | (Inr (filtered, embeddings), w') \<Rightarrow>
          (case index_add embeddings w' of
             (Inl e, w'') \<Rightarrow> (Inl e, w'')
           | (Inr index, w'') \<Rightarrow>
               (case faiss_constructor index (docs_of_pairs filtered) of
                  Inl e \<Rightarrow> (Inl e, w'')
                | Inr faiss_db \<Rightarrow>
                    (Inr faiss_db, emit IndexSave (w''\<lparr>index_dir := Some faiss_db\<rparr>)))))"

definition get_retriever ::
  "(ustr \<Rightarrow> 't list) \<Rightarrow> ('t list \<Rightarrow> ustr) \<Rightarrow> (ustr \<Rightarrow> ustr list) \<Rightarrow> (ustr \<Rightarrow> ustr) \<Rightarrow>
   provider \<Rightarrow> ustr option \<Rightarrow> directory \<Rightarrow> bool \<Rightarrow> int \<Rightarrow> int option \<Rightarrow> doc_meta world \<Rightarrow>
   (error + doc_meta ensemble) \<times> doc_meta world" where
  "get_retriever enc dec sent_tokenize hash_text p api_key folder reuse_index k limit_files w =
     (case load_documents folder limit_files of
        Inl e \<Rightarrow> (Inl e, w)
      | Inr documents \<Rightarrow>
          if documents = [] then (Inl NoDocuments, w)
          else
            let chunks = semantic_token_chunk_documents enc dec sent_tokenize documents 300 50 in
            if chunks = [] then (Inl NoChunks, w)
            else if api_key = None \<or> api_key = Some [] then (Inl ApiKeyMissing, w)
            else
              (case load_cache w of
                 Inl e \<Rightarrow> (Inl e, w)
               | Inr cache \<Rightarrow>
                   (case (case (reuse_index, index_dir w) of
                            (True, Some saved) \<Rightarrow> (Inr saved, w)
                          | _ \<Rightarrow> embed_and_index enc hash_text p chunks cache w) of
                      (Inl e, w') \<Rightarrow> (Inl e, w')
                    | (Inr faiss_db, w') \<Rightarrow>
                        (Inr \<lparr>retrievers = [BM25 chunks, FaissSimilarity faiss_db k],
                              weights = [1 / 2, 1 / 2]\<rparr>, w'))))"

text \<open>
  The embedding step of \<open>build_faiss_index\<close>: the same loop with \<open>embed_with_retry\<close>
  (three attempts) for every provider call, the cache file read by the function itself,
  texts of more than five tokens, and a batch size given by the caller (\<open>range\<close> raises on
  a step of zero and is empty for a negative one).
\<close>

definition build_embeddings ::
  "(ustr \<Rightarrow> 't list) \<Rightarrow> (ustr \<Rightarrow> ustr) \<Rightarrow> provider \<Rightarrow> 'm document list \<Rightarrow> int \<Rightarrow>
   'm world \<Rightarrow> (error + (ustr, 'm) dict \<times> vec list) \<times> 'm world" where
  "build_embeddings enc hash_text p docs batch_size w =
     (case load_cache w of
        Inl e \<Rightarrow> (Inl e, w)
      | Inr cache \<Rightarrow>
          let filtered = filter_short enc 5 (unique_pairs docs) in
          if batch_size = 0 then (Inl ValueError, w)
          else
            (case embed_batches (embed_with_retry p 3) enc hash_text (cache, [], []) w
                    (if batch_size < 0 then [] else batches (nat batch_size) (map fst filtered)) of
               (Inl e, w') \<Rightarrow> (Inl e, w')
             | (Inr (cache', embeddings, new_cache_entries), w') \<Rightarrow>
                 (Inr (filtered, embeddings), persist_cache cache' new_cache_entries w')))"

text \<open>
  \<open>build_faiss_index\<close>: its embedding step, the rows added to the index, and the same
  constructor call, whose exception is what the function ends with.
\<close>

definition build_faiss_index ::
  "(ustr \<Rightarrow> 't list) \<Rightarrow> (ustr \<Rightarrow> ustr) \<Rightarrow> provider \<Rightarrow> 'm document list \<Rightarrow> int \<Rightarrow>
   'm world \<Rightarrow> (error + 'm store) \<times> 'm world" where
  "build_faiss_index enc hash_text p docs batch_size w =
     (case build_embeddings enc hash_text p docs batch_size w of
        (Inl e, w') \<Rightarrow> (Inl e, w')
      | (Inr (filtered, embeddings), w') \<Rightarrow>
          (case index_add embeddings w' of
             (Inl e, w'') \<Rightarrow> (Inl e, w'')
           | (Inr index, w'') \<Rightarrow>
               (case faiss_constructor index (docs_of_pairs filtered) of
                  Inl e \<Rightarrow> (Inl e, w'')
                | Inr faiss_db \<Rightarrow> (Inr faiss_db, w''))))"

subsection \<open>Fixtures for evaluation\<close>

text \<open>
  A byte-level tokenizer (one token per character, a byte-pair encoding with no merges):
  encoding and decoding are the identity on character lists.
\<close>

definition char_enc :: "ustr \<Rightarrow> nat list" where
  "char_enc s = s"

definition char_dec :: "nat list \<Rightarrow> ustr" where
  "char_dec ts = ts"

text \<open>
  A fingerprint that tells all texts apart (the text itself), and a provider that embeds
  a text as the one-dimensional vector of its length and never fails.
\<close>

definition id_hash :: "ustr \<Rightarrow> ustr" where
  "id_hash t = t"

definition length_provider :: provider where
  "length_provider n texts = Some (map (\<lambda>t. [real (length t)]) texts)"

text \<open>A provider whose calls number \<open>i\<close> with \<open>i \<in> set fails\<close> raise; the others answer as above.\<close>

definition flaky_provider :: "nat list \<Rightarrow> provider" where
  "flaky_provider fails n texts = (if n \<in> set fails then None else length_provider n texts)"

definition empty_world :: "'m world" where
  "empty_world = \<lparr>cache_file = Absent, index_dir = None, trace = []\<rparr>"

definition no_meta :: doc_meta where
  "no_meta = \<lparr>m_biz_name = [], m_notice_no = [], m_notice_round = [], m_biz_amount = [],
     m_agency = [], m_bid_start = [], m_bid_end = [], m_biz_summary = [], m_file_name = [],
     m_source = []\<rparr>"

text \<open>A record file with one page of text and the given business name.\<close>

definition one_page :: "ustr \<Rightarrow> ustr \<Rightarrow> json_record option" where
  "one_page name text =
     Some \<lparr>csv_metadata = Some [K_biz_name \<mapsto> name], pdf_data = Some [Some text]\<rparr>"

subsection \<open>Vocabulary of the statements\<close>






text \<open>A directory of three record files (one of them with blank pages only) and a text file.\<close>

definition sample_folder :: directory where
  "sample_folder =
     [((str ''b.json''), one_page (str ''B'') (str ''beta.'')),
      ((str ''notes.txt''), None),
      ((str ''c.json''), Some \<lparr>csv_metadata = None, pdf_data = Some [Some (str ''  ''), None]\<rparr>),
      ((str ''a.json''), one_page (str ''A'') (str ''alpha one.''))]"

definition doc_a :: "doc_meta document" where
  "doc_a = \<lparr>page_content = (str ''alpha one.''), metadata = no_meta\<lparr>m_biz_name := (str ''A''), m_source := (str ''a.json'')\<rparr>\<rparr>"

definition doc_b :: "doc_meta document" where
  "doc_b = \<lparr>page_content = (str ''beta.''), metadata = no_meta\<lparr>m_biz_name := (str ''B''), m_source := (str ''b.json'')\<rparr>\<rparr>"

text \<open>A store found in the index directory.\<close>

definition saved_store :: "doc_meta store" where
  "saved_store = \<lparr>store_dim = 1, store_vectors = [[7]], store_documents = [doc_b]\<rparr>"

text \<open>
  The provider's contract: a call that succeeds returns one vector per text. A call
  (direct or with retries) keeps it when its result has the length of its input, and is
  quiet when it only appends events other than cache writes to the trace.
\<close>

definition provider_contract :: "provider \<Rightarrow> bool" where
  "provider_contract p = (\<forall>n texts vs. p n texts = Some vs \<longrightarrow> length vs = length texts)"

definition call_contract ::
  "(ustr list \<Rightarrow> 'm world \<Rightarrow> (error + vec list) \<times> 'm world) \<Rightarrow> bool" where
  "call_contract call = (\<forall>texts w vs w'. call texts w = (Inr vs, w') \<longrightarrow> length vs = length texts)"

definition quiet ::
  "(ustr list \<Rightarrow> 'm world \<Rightarrow> (error + vec list) \<times> 'm world) \<Rightarrow> bool" where
  "quiet call = (\<forall>texts w r w'. call texts w = (r, w') \<longrightarrow>
     (\<exists>evs. w' = w\<lparr>trace := trace w @ evs\<rparr> \<and> filter is_cache_write evs = []))"

text \<open>A text whose fingerprint is a key of the cache, and the vector cached for it.\<close>

definition hit :: "(ustr \<Rightarrow> ustr) \<Rightarrow> cache \<Rightarrow> ustr \<Rightarrow> bool" where
  "hit hash_text cache text = (map_of cache (hash_text text) \<noteq> None)"

definition cached :: "(ustr \<Rightarrow> ustr) \<Rightarrow> cache \<Rightarrow> ustr \<Rightarrow> vec" where
  "cached hash_text cache text = the (map_of cache (hash_text text))"

text \<open>What a batch that succeeds leaves behind.\<close>

definition covers :: "(ustr \<Rightarrow> ustr) \<Rightarrow> cache \<Rightarrow> vec list \<Rightarrow> ustr list \<Rightarrow> bool" where
  "covers h c E texts = (\<forall>t\<in>set texts. \<exists>v. map_of c (h t) = Some v \<and> v \<in> set E)"

text \<open>The texts that the embedding step of \<open>get_retriever\<close> works on.\<close>

definition embedded_texts :: "(ustr \<Rightarrow> 't list) \<Rightarrow> 'm document list \<Rightarrow> ustr list" where
  "embedded_texts enc chunks = map fst (filter_short enc 2 (unique_pairs chunks))"

text \<open>
  The world that an embedding run on the sample folder leaves: the cache file with the
  cache written, no index directory, and the trace.
\<close>

definition cold_world :: "cache \<Rightarrow> event list \<Rightarrow> doc_meta world" where
  "cold_world c tr = \<lparr>cache_file = Present c, index_dir = None, trace = tr\<rparr>"

text \<open>
  \<open>written_once_after_calls w w'\<close>: the run from \<open>w\<close> to \<open>w'\<close> only appended events, wrote
  the cache file at most once, left in the file what it wrote, and called the provider
  no more after writing. \<open>nothing_written w w'\<close>: it did not write the cache file.
\<close>

definition written_once_after_calls :: "'m world \<Rightarrow> 'm world \<Rightarrow> bool" where
  "written_once_after_calls w w' =
     (let evs = drop (length (trace w)) (trace w') in
      take (length (trace w)) (trace w') = trace w \<and>
      (case filter is_cache_write evs of
         [] \<Rightarrow> cache_file w' = cache_file w
       | [CacheWrite c] \<Rightarrow>
           cache_file w' = Present c
           \<and> filter is_call (dropWhile (\<lambda>e. \<not> is_cache_write e) evs) = []
       | _ \<Rightarrow> False))"

definition nothing_written :: "'m world \<Rightarrow> 'm world \<Rightarrow> bool" where
  "nothing_written w w' =
     (cache_file w' = cache_file w
      \<and> filter is_cache_write (trace w') = filter is_cache_write (trace w))"

text \<open>Two chunks of more than five tokens each.\<close>

definition two_chunks :: "unit document list" where
  "two_chunks = [\<lparr>page_content = (str ''alpha one.''), metadata = ()\<rparr>,
                 \<lparr>page_content = (str ''beta two.''), metadata = ()\<rparr>]"

text \<open>The texts sent to the provider, in the order of the calls.\<close>

definition provider_texts :: "event list \<Rightarrow> ustr list" where
  "provider_texts tr = concat (map (\<lambda>e. case e of ProviderCall ts \<Rightarrow> ts | _ \<Rightarrow> []) tr)"

text \<open>Two record files with the same page text and different metadata, and what a run leaves.\<close>

definition twin_folder :: directory where
  "twin_folder = [((str ''a.json''), one_page (str ''A'') (str ''alpha one.'')), ((str ''b.json''), one_page (str ''B'') (str ''alpha one.''))]"

definition doc_a2 :: "doc_meta document" where
  "doc_a2 = \<lparr>page_content = (str ''alpha one.''), metadata = no_meta\<lparr>m_biz_name := (str ''B''), m_source := (str ''b.json'')\<rparr>\<rparr>"

text \<open>
  \<open>persisted_after_loop hash_text cache texts w w1\<close>: what a completed loop over \<open>texts\<close>,
  started in \<open>w\<close> with \<open>cache\<close>, has left in \<open>w1\<close>. When every text was in the cache,
  nothing happened. Otherwise the run appended events to the trace, the last of them the
  only write of the cache file; the file holds the cache written, and that cache has
  every entry of \<open>cache\<close> and an entry for every text.
\<close>

definition persisted_after_loop ::
  "(ustr \<Rightarrow> ustr) \<Rightarrow> cache \<Rightarrow> ustr list \<Rightarrow> 'm world \<Rightarrow> 'm world \<Rightarrow> bool" where
  "persisted_after_loop hash_text cache texts w w1 =
     (if list_all (hit hash_text cache) texts
      then w1 = w
      else
        let evs = drop (length (trace w)) (trace w1) in
        take (length (trace w)) (trace w1) = trace w
        \<and> index_dir w1 = index_dir w
        \<and> (case cache_file w1 of
             Present c \<Rightarrow>
               evs \<noteq> [] \<and> last evs = CacheWrite c
               \<and> filter is_cache_write (butlast evs) = []
               \<and> list_all (hit hash_text c) texts
               \<and> list_all (\<lambda>k. map_of c k = map_of cache k) (map fst cache)
           | _ \<Rightarrow> False))"



subsection \<open>The rank fusion of the ensemble retriever\<close>

text \<open>
  Modelled from the spec: the result of a sub-retriever. \<open>EnsembleRetriever\<close> is a class of
  the \<open>langchain\<close> library; \<open>get_retriever\<close> only constructs it, and its fusion code is
  not in the repository. Section 3 of the specification has a retrieval result as a
  ranked sequence of (chunk, score) pairs.
\<close>

type_synonym 'c ranked = "('c \<times> real) list"

text \<open>Modelled from the spec: the ranking of a result, its chunks in order.\<close>

definition ranking :: "'c ranked \<Rightarrow> 'c list" where
  "ranking r = map fst r"

text \<open>
  Modelled from the spec: the contribution of a sub-retriever to a chunk (section 4.7): the
  score it gave the chunk, and zero for a chunk absent from its result.
\<close>

definition contribution :: "'c ranked \<Rightarrow> 'c \<Rightarrow> real" where
  "contribution r c = (case map_of r c of None \<Rightarrow> 0 | Some s \<Rightarrow> s)"

text \<open>
  Modelled from the spec: the fused score of a chunk (section 4.7), the weighted sum of
  the sub-retrievers' contributions.
\<close>

definition fused_score :: "real list \<Rightarrow> 'c ranked list \<Rightarrow> 'c \<Rightarrow> real" where
  "fused_score ws rs c = sum_list (map (\<lambda>(w, r). w * contribution r c) (zip ws rs))"

text \<open>
  Modelled from the spec: results aligned by chunk identity (section 4.7). A chunk that
  several sub-retrievers return is one candidate, at the place of its first occurrence.
\<close>

fun first_seen :: "'c list \<Rightarrow> 'c list" where
  "first_seen [] = []"
| "first_seen (c # cs) = c # filter (\<lambda>x. x \<noteq> c) (first_seen cs)"

text \<open>
  Modelled from the spec: the chunks that some sub-retriever returned (section 4.7), those
  of the first-listed retriever first.
\<close>

definition candidates :: "'c ranked list \<Rightarrow> 'c list" where
  "candidates rs = first_seen (concat (map ranking rs))"

text \<open>
  Modelled from the spec: the fused result (section 4.7), the top \<open>k\<close> candidates by fused
  score. The sort is stable, so among chunks of equal fused score the one that comes
  first among the candidates stays first: the first-listed retriever wins ties.
\<close>

definition ensemble_retrieve :: "real list \<Rightarrow> 'c ranked list \<Rightarrow> nat \<Rightarrow> 'c ranked" where
  "ensemble_retrieve ws rs k =
     take k (map (\<lambda>c. (c, fused_score ws rs c))
               (sort_key (\<lambda>c. - fused_score ws rs c) (candidates rs)))"

text \<open>
  A result of \<open>k\<close> distinct chunks whose scores are not negative and do not increase
  along the ranking; and one whose scores are positive and decrease strictly.
\<close>

definition ordered_scores :: "'c ranked \<Rightarrow> nat \<Rightarrow> bool" where
  "ordered_scores r k =
     (distinct (ranking r) \<and> length r = k
      \<and> sorted_wrt (\<lambda>a b. a \<ge> b) (map snd r) \<and> list_all (\<lambda>s. 0 \<le> s) (map snd r))"

definition strictly_ordered_scores :: "'c ranked \<Rightarrow> nat \<Rightarrow> bool" where
  "strictly_ordered_scores r k =
     (distinct (ranking r) \<and> length r = k
      \<and> sorted_wrt (\<lambda>a b. a > b) (map snd r) \<and> list_all (\<lambda>s. 0 < s) (map snd r))"

text \<open>
  The token count that the chunker keeps for a buffer without overlap, the sum over its
  sentences; a buffer within the budget or made of one oversized sentence; a chunk whose
  text joins such a buffer.
\<close>

definition accounted :: "(ustr \<Rightarrow> 't list) \<Rightarrow> ustr list \<Rightarrow> nat" where
  "accounted enc sentences = sum_list (map (\<lambda>s. length (enc s)) sentences)"

definition in_budget :: "(ustr \<Rightarrow> 't list) \<Rightarrow> int \<Rightarrow> ustr list \<Rightarrow> bool" where
  "in_budget enc max_tokens sentences =
     (int (accounted enc sentences) \<le> max_tokens
      \<or> (\<exists>s. sentences = [s] \<and> max_tokens < int (length (enc s))))"

definition budgeted_chunk :: "(ustr \<Rightarrow> 't list) \<Rightarrow> int \<Rightarrow> 'm document \<Rightarrow> bool" where
  "budgeted_chunk enc max_tokens chunk =
     (\<exists>sentences. page_content chunk = join_sp sentences \<and> in_budget enc max_tokens sentences)"

section \<open>Properties of the chunker\<close>

lemma str_eq_iff [simp]: "str a = str b \<longleftrightarrow> a = b"
  by (simp add: str_def inj_map_eq_map inj_def)

lemma str_Nil_iff [simp]: "str a = [] \<longleftrightarrow> a = []"
  by (simp add: str_def)

lemma length_str [simp]: "length (str a) = length a"
  by (simp add: str_def)

lemmas string_eval = str_def strip_def is_space_def is_stop_def split_sentences_def
  last_chars_def char_enc_def char_dec_def

lemmas chunk_eval = semantic_token_chunk_documents_def chunk_document_def chunk_step_def

lemma chunk_step_out:
  "\<exists>ys. snd (snd (chunk_step enc dec mx ov md st s)) = snd (snd st) @ ys"
  by (cases st) (simp add: chunk_step_def Let_def)

lemma foldl_chunk_step_out:
  "\<exists>ys. snd (snd (foldl (chunk_step enc dec mx ov md) st ss)) = snd (snd st) @ ys"
proof (induction ss arbitrary: st)
  case Nil
  then show ?case by simp
next
  case (Cons s ss)
  obtain ys where a: "snd (snd (chunk_step enc dec mx ov md st s)) = snd (snd st) @ ys"
    using chunk_step_out[of enc dec mx ov md st s] by blast
  obtain zs where "snd (snd (foldl (chunk_step enc dec mx ov md) (chunk_step enc dec mx ov md st s) ss))
      = snd (snd (chunk_step enc dec mx ov md st s)) @ zs"
    using Cons.IH[of "chunk_step enc dec mx ov md st s"] by blast
  with a show ?case by simp
qed

lemma chunk_document_out:
  "\<exists>ys. chunk_document enc dec st mx ov out doc = out @ ys"
proof -
  obtain ys where
    "snd (snd (foldl (chunk_step enc dec mx ov (metadata doc)) ([], 0, out) (st (page_content doc)))) = out @ ys"
    using foldl_chunk_step_out[of enc dec mx ov "metadata doc" "([], 0, out)"] by auto
  then show ?thesis by (auto simp add: chunk_document_def Let_def split: prod.splits)
qed

lemma foldl_chunk_document_out:
  "\<exists>ys. foldl (chunk_document enc dec st mx ov) out docs = out @ ys"
proof (induction docs arbitrary: out)
  case Nil
  then show ?case by simp
next
  case (Cons d ds)
  obtain ys where a: "chunk_document enc dec st mx ov out d = out @ ys"
    using chunk_document_out[of enc dec st mx ov out d] by blast
  obtain zs where "foldl (chunk_document enc dec st mx ov) (out @ ys) ds = (out @ ys) @ zs"
    using Cons.IH[of "out @ ys"] by blast
  with a show ?case by simp
qed

text \<open>A step never leaves the buffer empty: the buffer is empty at the start of a document only.\<close>

lemma chunk_step_buffer_not_empty:
  "fst (chunk_step enc dec mx ov md st s) \<noteq> []"
  by (cases st) (simp add: chunk_step_def Let_def)

lemma chunk_step_oversized_first:
  assumes "mx < int (length (enc s))"
  shows "\<exists>b c. chunk_step enc dec mx ov md ([], 0, out) s
           = (b, c, out @ [\<lparr>page_content = [], metadata = md\<rparr>])"
  using assms by (auto simp add: chunk_step_def Let_def)

lemma chunk_document_oversized_first:
  assumes "st (page_content doc) = s # rest" and "mx < int (length (enc s))"
  shows "\<exists>more. chunk_document enc dec st mx ov out doc
           = out @ \<lparr>page_content = [], metadata = metadata doc\<rparr> # more"
proof -
  let ?e = "\<lparr>page_content = [], metadata = metadata doc\<rparr>"
  obtain b c where
    step: "chunk_step enc dec mx ov (metadata doc) ([], 0, out) s = (b, c, out @ [?e])"
    using chunk_step_oversized_first[of mx enc s dec ov "metadata doc" out] assms(2) by blast
  obtain ys where
    "snd (snd (foldl (chunk_step enc dec mx ov (metadata doc)) (b, c, out @ [?e]) rest)) = (out @ [?e]) @ ys"
    using foldl_chunk_step_out[of enc dec mx ov "metadata doc" "(b, c, out @ [?e])"] by auto
  with step assms(1) show ?thesis
    by (auto simp add: chunk_document_def Let_def split: prod.splits)
qed

text \<open>
  C9. Some input makes \<open>semantic_token_chunk_documents\<close> emit a chunk with empty text: when
  the first sentence of a document alone exceeds \<open>max_tokens\<close>, the loop meets it with an
  empty buffer, and the overflow branch emits that empty buffer as a chunk (with the
  document's metadata) before the sentence enters the buffer. The chunk is the first one
  of its document, right after the chunks of the documents before it.
\<close>

theorem empty_chunk_before_oversized_first_sentence:
  assumes "sent_tokenize (page_content doc) = s # rest"
    and "max_tokens < int (length (enc s))"
    and "documents = before @ doc # after"
  shows "(\<exists>b c. chunk_step enc dec max_tokens overlap_tokens (metadata doc) ([], 0, out) s
            = (b, c, out @ [\<lparr>page_content = [], metadata = metadata doc\<rparr>]))
       \<and> (\<exists>more. semantic_token_chunk_documents enc dec sent_tokenize documents max_tokens overlap_tokens
            = semantic_token_chunk_documents enc dec sent_tokenize before max_tokens overlap_tokens
              @ \<lparr>page_content = [], metadata = metadata doc\<rparr> # more)"
proof
  show "\<exists>b c. chunk_step enc dec max_tokens overlap_tokens (metadata doc) ([], 0, out) s
            = (b, c, out @ [\<lparr>page_content = [], metadata = metadata doc\<rparr>])"
    using chunk_step_oversized_first[of max_tokens enc s dec overlap_tokens "metadata doc" out] assms(2)
    by blast
next
  let ?f = "chunk_document enc dec sent_tokenize max_tokens overlap_tokens"
  let ?pre = "foldl ?f [] before"
  obtain more where a: "?f ?pre doc = ?pre @ \<lparr>page_content = [], metadata = metadata doc\<rparr> # more"
    using chunk_document_oversized_first[of sent_tokenize doc s rest max_tokens enc dec overlap_tokens ?pre]
      assms(1,2) by blast
  obtain ys where "foldl ?f (?f ?pre doc) after = ?f ?pre doc @ ys"
    using foldl_chunk_document_out[of enc dec sent_tokenize max_tokens overlap_tokens "?f ?pre doc" after]
    by blast
  with a assms(3) show "\<exists>more. semantic_token_chunk_documents enc dec sent_tokenize documents max_tokens overlap_tokens
            = semantic_token_chunk_documents enc dec sent_tokenize before max_tokens overlap_tokens
              @ \<lparr>page_content = [], metadata = metadata doc\<rparr> # more"
    by (simp add: semantic_token_chunk_documents_def)
qed

theorem empty_chunk_before_oversized_first_sentence_witness:
  "split_sentences (page_content \<lparr>page_content = (str ''aaaaaaaaaaaaaaa.''), metadata = ()\<rparr>)
     = (str ''aaaaaaaaaaaaaaa.'') # []
   \<and> (10 :: int) < int (length (char_enc (str ''aaaaaaaaaaaaaaa.'')))
   \<and> (\<exists>more. semantic_token_chunk_documents char_enc char_dec split_sentences
          [\<lparr>page_content = (str ''aaaaaaaaaaaaaaa.''), metadata = ()\<rparr>] 10 0
        = semantic_token_chunk_documents char_enc char_dec split_sentences [] 10 0
          @ \<lparr>page_content = [], metadata = ()\<rparr> # more)"
proof -
  let ?d = "\<lparr>page_content = (str ''aaaaaaaaaaaaaaa.''), metadata = ()\<rparr>"
  have h1: "split_sentences (page_content ?d) = (str ''aaaaaaaaaaaaaaa.'') # []"
    by (simp add: string_eval)
  have h2: "(10 :: int) < int (length (char_enc (str ''aaaaaaaaaaaaaaa.'')))"
    by (simp add: char_enc_def str_def)
  have h3: "[?d] = [] @ ?d # []"
    by simp
  show ?thesis
    using h1 h2
      empty_chunk_before_oversized_first_sentence
        [of split_sentences ?d "(str ''aaaaaaaaaaaaaaa.'')" "[]" 10 char_enc "[?d]" "[]" "[]"
            char_dec 0 "[]", OF h1 h2 h3]
    by simp
qed

text \<open>
  The overlap branch, for any tokenizer. Let a document have three sentences, the first
  within the budget and the first two together above it, and let the seeded buffer (the
  decoded last \<open>overlap_tokens\<close> characters of the first chunk, and the second sentence)
  overflow with the third sentence. Then the seeded buffer is emitted as it is: its own
  token count was computed and never compared with \<open>max_tokens\<close>.
\<close>

lemma overlap_seeds_unchecked_buffer:
  assumes "sent_tokenize (page_content doc) = [s1, s2, s3]"
    and "int (length (enc s1)) \<le> mx"
    and "mx < int (length (enc s1)) + int (length (enc s2))"
    and "0 < ov"
    and "seed = dec (enc (last_chars (nat ov) s1))"
    and "mx < int (length (enc (join_sp [seed, s2]))) + int (length (enc s3))"
  shows "chunk_document enc dec sent_tokenize mx ov [] doc
           = [\<lparr>page_content = s1, metadata = metadata doc\<rparr>,
              \<lparr>page_content = join_sp [seed, s2], metadata = metadata doc\<rparr>,
              \<lparr>page_content =
                 join_sp [dec (enc (last_chars (nat ov) (join_sp [seed, s2]))), s3],
               metadata = metadata doc\<rparr>]"
  using assms by (simp add: chunk_document_def chunk_step_def Let_def)

text \<open>
  C2. The budget is exceeded by a chunk that no oversized sentence explains. With one
  token per character, \<open>max_tokens = 10\<close> and \<open>overlap_tokens = 3\<close>, the text
  \<open>aaaa. bbbbbbbb. c.\<close> has sentences of 5, 9 and 2 tokens, none above the budget. The
  second sentence overflows the buffer; the next buffer is seeded with the last three
  characters of the emitted text and the sentence, 13 tokens together, and nothing checks
  that count against \<open>max_tokens\<close>: the third sentence makes the loop emit it.
\<close>

theorem overlap_chunk_exceeds_budget:
  "semantic_token_chunk_documents char_enc char_dec split_sentences
       [\<lparr>page_content = (str ''aaaa. bbbbbbbb. c.''), metadata = ()\<rparr>] 10 3
     = [\<lparr>page_content = (str ''aaaa.''), metadata = ()\<rparr>,
        \<lparr>page_content = (str ''aa. bbbbbbbb.''), metadata = ()\<rparr>,
        \<lparr>page_content = (str ''bb. c.''), metadata = ()\<rparr>]
   \<and> split_sentences (str ''aaaa. bbbbbbbb. c.'') = [(str ''aaaa.''), (str ''bbbbbbbb.''), (str ''c.'')]
   \<and> map (\<lambda>s. length (char_enc s)) [(str ''aaaa.''), (str ''bbbbbbbb.''), (str ''c.'')] = [5, 9, 2]
   \<and> length (char_enc (str ''aa. bbbbbbbb.'')) = 13"
  by (simp add: string_eval chunk_eval)

section \<open>Properties of the loader\<close>



lemma embed_direct_error:
  "embed_direct p ts w = (Inl e, w') \<Longrightarrow> e = ProviderFailure"
  by (auto simp: embed_direct_def embed_documents_def split: option.splits)

lemma retry_from_error:
  "retry_from p ts r a w = (Inl e, w') \<Longrightarrow> e = RetriesExhausted"
  by (induction p ts r a w rule: retry_from.induct)
     (auto simp: embed_documents_def split: option.splits)

lemma embed_queued_error:
  assumes "\<forall>ts w e w'. call ts w = (Inl e, w') \<longrightarrow> e = x"
    and "embed_queued call enc b w = (Inl e, w')"
  shows "e = x"
  using assms(2) assms(1)
  by (auto simp: embed_queued_def Let_def split: if_splits prod.splits sum.splits)

lemma process_batch_error:
  assumes "\<forall>ts w e w'. call ts w = (Inl e, w') \<longrightarrow> e = x"
    and "process_batch call enc h st w b = (Inl e, w')"
  shows "e = x"
  using assms(2) embed_queued_error[OF assms(1)]
  by (auto simp: process_batch_def split: if_splits prod.splits sum.splits)

lemma embed_batches_error:
  assumes "\<forall>ts w e w'. call ts w = (Inl e, w') \<longrightarrow> e = x"
    and "embed_batches call enc h st w bs = (Inl e, w')"
  shows "e = x"
  using assms(2)
proof (induction bs arbitrary: st w)
  case Nil
  then show ?case by simp
next
  case (Cons b bs)
  show ?case
  proof (cases "process_batch call enc h st w b")
    case (Pair r w1)
    show ?thesis
    proof (cases r)
      case (Inl e1)
      with Pair Cons.prems have "process_batch call enc h st w b = (Inl e, w')" by simp
      then show ?thesis by (rule process_batch_error[OF assms(1)])
    next
      case (Inr st1)
      with Pair Cons.prems have "embed_batches call enc h st1 w1 bs = (Inl e, w')" by simp
      then show ?thesis by (rule Cons.IH)
    qed
  qed
qed

lemma index_add_error:
  "index_add E w = (Inl e, w') \<Longrightarrow> e \<in> {IndexError, DimensionMismatch} \<and> w' = w"
  by (auto simp: index_add_def split: list.splits if_splits)

lemma index_add_world:
  "index_add E w = (r, w') \<Longrightarrow> w' = w \<or> w' = w\<lparr>trace := trace w @ [IndexAdd E]\<rparr>"
  by (auto simp: index_add_def emit_def split: list.splits if_splits)

lemma embedding_step_error:
  assumes "embedding_step enc h p chunks cache w = (Inl e, w')"
  shows "e \<in> {NoTexts, AllFiltered, ProviderFailure}"
proof -
  let ?loop = "embed_batches (embed_direct p) enc h (cache, [], []) w
                 (batches 100 (map fst (filter_short enc 2 (unique_pairs chunks))))"
  have call: "\<forall>ts w0 e0 w1. embed_direct p ts w0 = (Inl e0, w1) \<longrightarrow> e0 = ProviderFailure"
    using embed_direct_error by blast
  have loop: "?loop = (Inl e0, w1) \<Longrightarrow> e0 = ProviderFailure" for e0 w1
    using embed_batches_error[OF call] by blast
  show ?thesis
  proof (cases ?loop)
    case (Pair r w1)
    show ?thesis
    proof (cases r)
      case (Inl e0)
      with Pair loop have "e0 = ProviderFailure" by blast
      with Pair Inl assms show ?thesis
        by (auto simp: embedding_step_def Let_def split: if_splits)
    next
      case (Inr st)
      with Pair assms show ?thesis
        by (auto simp: embedding_step_def Let_def split: if_splits prod.splits)
    qed
  qed
qed

text \<open>The embedding branch of \<open>get_retriever\<close> never returns a store: it ends in an exception.\<close>

lemma embed_and_index_raises:
  "\<exists>e. fst (embed_and_index enc h p chunks cache w) = Inl e
       \<and> e \<in> {NoTexts, AllFiltered, ProviderFailure, IndexError, DimensionMismatch, TypeError}"
proof (cases "embedding_step enc h p chunks cache w")
  case (Pair r w1)
  show ?thesis
  proof (cases r)
    case (Inl e)
    with Pair embedding_step_error[of enc h p chunks cache w e w1] show ?thesis
      by (auto simp: embed_and_index_def)
  next
    case (Inr fe)
    obtain filtered E where fe: "fe = (filtered, E)" by (cases fe)
    show ?thesis
    proof (cases "index_add E w1")
      case (Pair r2 w2)
      show ?thesis
      proof (cases r2)
        case (Inl e)
        with Pair index_add_error[of E w1 e w2] \<open>embedding_step enc h p chunks cache w = (r, w1)\<close> Inr fe
        show ?thesis
          by (auto simp: embed_and_index_def)
      next
        case (Inr ix)
        with Pair \<open>embedding_step enc h p chunks cache w = (r, w1)\<close> \<open>r = Inr fe\<close> fe
        show ?thesis
          by (simp add: embed_and_index_def faiss_constructor_def)
      qed
    qed
  qed
qed



lemma sample_selected:
  "selected_files sample_folder None =
     [((str ''a.json''), one_page (str ''A'') (str ''alpha one.'')),
      ((str ''b.json''), one_page (str ''B'') (str ''beta.'')),
      ((str ''c.json''), Some \<lparr>csv_metadata = None, pdf_data = Some [Some (str ''  ''), None]\<rparr>)]"
  by (simp add: sample_folder_def selected_files_def ends_with_def str_def)

lemma sample_documents: "load_documents sample_folder None = Inr [doc_a, doc_b]"
  by (simp add: load_documents_def sample_selected one_page_def page_texts_of_def string_eval
        document_of_def get_or_empty_def doc_a_def doc_b_def no_meta_def)

lemma sample_chunks:
  "semantic_token_chunk_documents char_enc char_dec split_sentences [doc_a, doc_b] 300 50
     = [doc_a, doc_b]"
  by (simp add: chunk_eval string_eval doc_a_def doc_b_def)



section \<open>Reusing a saved index\<close>

lemma load_files_error: "load_files files acc = Inl e \<Longrightarrow> e = JSONDecodeError"
  by (induction files acc rule: load_files.induct) simp_all

lemma load_documents_error: "load_documents folder limit_files = Inl e \<Longrightarrow> e = JSONDecodeError"
  unfolding load_documents_def by (rule load_files_error)

text \<open>
  C10. With \<open>reuse_index\<close> true and a saved index at \<open>index_path\<close>, \<open>get_retriever\<close> leaves
  the world as it found it, whatever it returns: no provider call, no cache write, no
  index save. It returns a retriever exactly when the documents load and are not empty,
  the chunks are not empty, the API key is set and the cache file parses; the retriever
  then holds the BM25 retriever over the chunks of the freshly loaded documents, then
  the saved store with \<open>k\<close>, with weights 0.5 and 0.5. Its only errors are those of the
  loader, the emptiness checks, the API key and the cache file.
\<close>

theorem reuse_index_loads_without_embedding:
  assumes "index_dir w = Some saved"
  shows "snd (get_retriever enc dec sent_tokenize hash_text p api_key folder True k limit_files w) = w
       \<and> (case fst (get_retriever enc dec sent_tokenize hash_text p api_key folder True k limit_files w) of
             Inl e \<Rightarrow> e \<in> {JSONDecodeError, NoDocuments, NoChunks, ApiKeyMissing}
           | Inr r \<Rightarrow>
               (\<exists>documents. load_documents folder limit_files = Inr documents
                  \<and> r = \<lparr>retrievers =
                           [BM25 (semantic_token_chunk_documents enc dec sent_tokenize documents 300 50),
                            FaissSimilarity saved k],
                         weights = [1 / 2, 1 / 2]\<rparr>))
       \<and> ((\<exists>r. fst (get_retriever enc dec sent_tokenize hash_text p api_key folder True k limit_files w)
                 = Inr r)
          \<longleftrightarrow> (\<exists>documents. load_documents folder limit_files = Inr documents \<and> documents \<noteq> []
                \<and> semantic_token_chunk_documents enc dec sent_tokenize documents 300 50 \<noteq> []
                \<and> api_key \<noteq> None \<and> api_key \<noteq> Some [] \<and> cache_file w \<noteq> Corrupt))"
  using assms
  by (auto simp: get_retriever_def Let_def load_cache_def
           dest: load_documents_error
           split: sum.splits file_state.splits)

theorem reuse_index_loads_without_embedding_witness:
  "get_retriever char_enc char_dec split_sentences id_hash (flaky_provider [0, 1, 2]) (Some (str ''key''))
       sample_folder True 5 None (empty_world\<lparr>index_dir := Some saved_store\<rparr>)
     = (Inr \<lparr>retrievers = [BM25 [doc_a, doc_b], FaissSimilarity saved_store 5],
             weights = [1 / 2, 1 / 2]\<rparr>,
        empty_world\<lparr>index_dir := Some saved_store\<rparr>)"
proof -
  have h: "index_dir (empty_world\<lparr>index_dir := Some saved_store\<rparr> :: doc_meta world) = Some saved_store"
    by simp
  show ?thesis
    using reuse_index_loads_without_embedding
      [OF h, of char_enc char_dec split_sentences id_hash "flaky_provider [0, 1, 2]"
         "Some (str ''key'')" sample_folder 5 None]
    by (auto simp: sample_documents sample_chunks prod_eq_iff empty_world_def str_def
             split: sum.splits)
qed

section \<open>The batch-embedding loop\<close>

lemma map_of_dict_set: "map_of (dict_set k v d) = (map_of d)(k \<mapsto> v)"
  by (induction d) (auto simp: fun_eq_iff)

lemma dict_set_not_Nil: "dict_set k v d \<noteq> []"
  by (cases d) (auto split: if_splits)

lemma store_entries_Nil: "store_entries [] c = c"
  by (simp add: store_entries_def)

lemma store_entries_Cons: "store_entries ((k, v) # ps) c = store_entries ps (dict_set k v c)"
  by (simp add: store_entries_def)

lemma store_entries_other:
  "k \<notin> fst ` set ps \<Longrightarrow> map_of (store_entries ps c) k = map_of c k"
  by (induction ps arbitrary: c) (auto simp: store_entries_Nil store_entries_Cons map_of_dict_set)

lemma store_entries_key:
  "k \<in> fst ` set ps \<Longrightarrow> \<exists>v. map_of (store_entries ps c) k = Some v \<and> (k, v) \<in> set ps"
proof (induction ps arbitrary: c)
  case Nil
  then show ?case by simp
next
  case (Cons a ps)
  obtain k0 v0 where a: "a = (k0, v0)" by (cases a)
  show ?case
  proof (cases "k \<in> fst ` set ps")
    case True
    from Cons.IH[OF True, of "dict_set k0 v0 c"] show ?thesis
      by (auto simp: a store_entries_Cons)
  next
    case False
    with Cons.prems a have "k = k0" by auto
    with False show ?thesis
      by (simp add: a store_entries_Cons store_entries_other map_of_dict_set)
  qed
qed

lemma store_entries_eq_Nil: "store_entries ps c = [] \<longleftrightarrow> ps = [] \<and> c = []"
proof (induction ps arbitrary: c)
  case Nil
  then show ?case by (simp add: store_entries_Nil)
next
  case (Cons a ps)
  then show ?case by (cases a) (simp add: store_entries_Cons dict_set_not_Nil)
qed

lemma scan_batch:
  "foldl (scan_text h c) (E, Q, H) batch =
     (E @ map (cached h c) (filter (hit h c) batch),
      Q @ filter (\<lambda>t. \<not> hit h c t) batch,
      H @ map h (filter (\<lambda>t. \<not> hit h c t) batch))"
  by (induction batch arbitrary: E Q H)
     (auto simp: scan_text_def hit_def cached_def Let_def split: option.splits)

lemma concat_batches: "0 < n \<Longrightarrow> concat (batches n xs) = xs"
proof (induction n xs rule: batches.induct)
  case (1 n xs)
  show ?case
  proof (cases "xs = []")
    case True
    then show ?thesis by (subst batches.simps) simp
  next
    case False
    with 1 show ?thesis
      by (subst batches.simps) simp
  qed
qed

lemma embed_queued_length:
  assumes "call_contract call" and "embed_queued call enc b w = (Inr vs, w')"
  shows "length vs = length b"
proof (cases "sum_list (map (\<lambda>t. length (enc t)) b) > 280000")
  case False
  with assms(2) have "call b w = (Inr vs, w')"
    by (simp add: embed_queued_def)
  with assms(1) show ?thesis
    unfolding call_contract_def by blast
next
  case True
  let ?mid = "length b div 2"
  from True assms(2) obtain v1 w1 v2 where
    c1: "call (take ?mid b) w = (Inr v1, w1)" and
    c2: "call (drop ?mid b) w1 = (Inr v2, w')" and vs: "vs = v1 @ v2"
    by (auto simp: embed_queued_def Let_def split: prod.splits sum.splits)
  from assms(1) c1 have "length v1 = length (take ?mid b)"
    unfolding call_contract_def by blast
  moreover from assms(1) c2 have "length v2 = length (drop ?mid b)"
    unfolding call_contract_def by blast
  ultimately show ?thesis using vs by simp
qed

lemma process_batch_hits:
  assumes "\<forall>t\<in>set batch. hit h c t"
  shows "process_batch call enc h (c, E, N) w batch = (Inr (c, E @ map (cached h c) batch, N), w)"
proof -
  from assms have "filter (hit h c) batch = batch" "filter (\<lambda>t. \<not> hit h c t) batch = []"
    by (simp_all add: filter_empty_conv)
  then show ?thesis
    by (simp add: process_batch_def scan_batch)
qed

lemma embed_batches_hits:
  "\<forall>t\<in>set (concat bs). hit h c t \<Longrightarrow>
   embed_batches call enc h (c, E, N) w bs = (Inr (c, E @ map (cached h c) (concat bs), N), w)"
proof (induction bs arbitrary: E)
  case Nil
  then show ?case by simp
next
  case (Cons b bs)
  from Cons.prems have b: "\<forall>t\<in>set b. hit h c t" and bs: "\<forall>t\<in>set (concat bs). hit h c t"
    by auto
  show ?case
    using Cons.IH[OF bs, of "E @ map (cached h c) b"]
    by (simp add: process_batch_hits[OF b])
qed

lemma process_batch_inv:
  assumes cc: "call_contract call"
    and pb: "process_batch call enc h (c, E, N) w batch = (Inr (c', E', N'), w')"
  shows "map_of c \<subseteq>\<^sub>m map_of c' \<and> covers h c' E' batch \<and> set E \<subseteq> set E'
        \<and> (N' = [] \<longrightarrow> N = [] \<and> c' = c) \<and> (N \<noteq> [] \<longrightarrow> N' \<noteq> [])"
proof -
  let ?E1 = "E @ map (cached h c) (filter (hit h c) batch)"
  let ?Q = "filter (\<lambda>t. \<not> hit h c t) batch"
  let ?H = "map h ?Q"
  have hitE: "hit h c t \<Longrightarrow> t \<in> set batch \<Longrightarrow> map_of c (h t) = Some (cached h c t) \<and> cached h c t \<in> set ?E1" for t
    by (auto simp: hit_def cached_def)
  show ?thesis
  proof (cases "?Q = []")
    case True
    with pb have eq: "c' = c" "E' = ?E1" "N' = N"
      by (auto simp: process_batch_def scan_batch)
    from True have "\<forall>t\<in>set batch. hit h c t"
      by (simp add: filter_empty_conv)
    with hitE eq show ?thesis
      by (auto simp: covers_def)
  next
    case False
    with pb obtain embs where
      eq: "embed_queued call enc ?Q w = (Inr embs, w')" and
      c': "c' = store_entries (zip ?H embs) c" and E': "E' = ?E1 @ embs" and
      N': "N' = store_entries (zip ?H embs) N"
      by (auto simp: process_batch_def scan_batch split: prod.splits sum.splits)
    have len: "length embs = length ?Q"
      by (rule embed_queued_length[OF cc eq])
    then have keys: "fst ` set (zip ?H embs) = set ?H"
      by (metis length_map map_fst_zip set_map)
    have old: "map_of c' k = map_of c k" if "map_of c k \<noteq> None" for k
    proof -
      from that have "k \<notin> set ?H" by (auto simp: hit_def)
      then show ?thesis using keys c' store_entries_other by metis
    qed
    have sub: "map_of c \<subseteq>\<^sub>m map_of c'"
      using old by (auto simp: map_le_def)
    have cov: "covers h c' E' batch"
      unfolding covers_def
    proof
      fix t assume t: "t \<in> set batch"
      show "\<exists>v. map_of c' (h t) = Some v \<and> v \<in> set E'"
      proof (cases "hit h c t")
        case True
        with hitE[OF True t] old[of "h t"] E' show ?thesis by auto
      next
        case False
        with t have "h t \<in> fst ` set (zip ?H embs)" using keys by auto
        then obtain v where "map_of c' (h t) = Some v" "(h t, v) \<in> set (zip ?H embs)"
          using store_entries_key c' by metis
        then show ?thesis using E' by (auto dest: set_zip_rightD)
      qed
    qed
    from False len have "zip ?H embs \<noteq> []"
      by (cases ?Q; cases embs) auto
    then have "N' \<noteq> []" using N' by (simp add: store_entries_eq_Nil)
    with sub cov E' show ?thesis
      by auto
  qed
qed

lemma covers_mono:
  "covers h c E ts \<Longrightarrow> map_of c \<subseteq>\<^sub>m map_of c' \<Longrightarrow> set E \<subseteq> set E' \<Longrightarrow> covers h c' E' ts"
  unfolding covers_def map_le_def
proof
  fix t assume a: "\<forall>t\<in>set ts. \<exists>v. map_of c (h t) = Some v \<and> v \<in> set E"
    and b: "\<forall>a\<in>dom (map_of c). map_of c a = map_of c' a" and s: "set E \<subseteq> set E'"
    and t: "t \<in> set ts"
  from a t obtain v where v: "map_of c (h t) = Some v" "v \<in> set E" by blast
  from v(1) b have "map_of c' (h t) = Some v" by (metis domI)
  with v(2) s show "\<exists>v. map_of c' (h t) = Some v \<and> v \<in> set E'" by blast
qed

lemma covers_append: "covers h c E (xs @ ys) \<longleftrightarrow> covers h c E xs \<and> covers h c E ys"
  by (auto simp: covers_def)

lemma embed_batches_inv:
  assumes cc: "call_contract call"
  shows "embed_batches call enc h (c, E, N) w bs = (Inr (c', E', N'), w') \<Longrightarrow>
     map_of c \<subseteq>\<^sub>m map_of c' \<and> covers h c' E' (concat bs) \<and> set E \<subseteq> set E'
     \<and> (N' = [] \<longrightarrow> N = [] \<and> c' = c) \<and> (N \<noteq> [] \<longrightarrow> N' \<noteq> [])"
proof (induction bs arbitrary: c E N w)
  case Nil
  then show ?case by (simp add: covers_def)
next
  case (Cons b bs)
  obtain r1 w1 where pb0: "process_batch call enc h (c, E, N) w b = (r1, w1)"
    by (cases "process_batch call enc h (c, E, N) w b")
  with Cons.prems obtain st1 where r1: "r1 = Inr st1"
    by (cases r1) auto
  obtain c1 E1 N1 where st1: "st1 = (c1, E1, N1)"
    by (cases st1)
  from pb0 r1 st1 have pb: "process_batch call enc h (c, E, N) w b = (Inr (c1, E1, N1), w1)"
    by simp
  with Cons.prems have rest: "embed_batches call enc h (c1, E1, N1) w1 bs = (Inr (c', E', N'), w')"
    by simp
  from process_batch_inv[OF cc pb] have
    p1: "map_of c \<subseteq>\<^sub>m map_of c1" and p2: "covers h c1 E1 b" and p3: "set E \<subseteq> set E1"
    and p4: "N1 = [] \<longrightarrow> N = [] \<and> c1 = c" and p5: "N \<noteq> [] \<longrightarrow> N1 \<noteq> []"
    by blast+
  from Cons.IH[OF rest] have
    r1: "map_of c1 \<subseteq>\<^sub>m map_of c'" and r2: "covers h c' E' (concat bs)" and r3: "set E1 \<subseteq> set E'"
    and r4: "N' = [] \<longrightarrow> N1 = [] \<and> c' = c1" and r5: "N1 \<noteq> [] \<longrightarrow> N' \<noteq> []"
    by blast+
  have a: "map_of c \<subseteq>\<^sub>m map_of c'"
    using p1 r1 by (rule map_le_trans)
  have "covers h c' E' b"
    by (rule covers_mono[OF p2 r1 r3])
  with r2 have b: "covers h c' E' (concat (b # bs))"
    by (simp add: covers_append)
  have c: "set E \<subseteq> set E'"
    using p3 r3 by blast
  have d: "N' = [] \<longrightarrow> N = [] \<and> c' = c"
    using p4 r4 by blast
  have e: "N \<noteq> [] \<longrightarrow> N' \<noteq> []"
    using p5 r5 by blast
  from a b c d e show ?case by blast
qed

lemma trace_twice:
  "w\<lparr>trace := trace w @ e1\<rparr>\<lparr>trace := trace (w\<lparr>trace := trace w @ e1\<rparr>) @ e2\<rparr> = w\<lparr>trace := trace w @ (e1 @ e2)\<rparr>"
  by simp

lemma embed_documents_world:
  "embed_documents p ts w = (r, w') \<Longrightarrow> w' = w\<lparr>trace := trace w @ [ProviderCall ts]\<rparr>"
  by (auto simp: embed_documents_def emit_def)

lemma embed_direct_world:
  "embed_direct p ts w = (r, w') \<Longrightarrow> w' = w\<lparr>trace := trace w @ [ProviderCall ts]\<rparr>"
  by (auto simp: embed_direct_def embed_documents_def emit_def split: option.splits)

lemma embed_direct_quiet: "quiet (embed_direct p)"
  unfolding quiet_def
proof (intro allI impI)
  fix ts w r w' assume "embed_direct p ts w = (r, w')"
  then have "w' = w\<lparr>trace := trace w @ [ProviderCall ts]\<rparr>" by (rule embed_direct_world)
  then show "\<exists>evs. w' = w\<lparr>trace := trace w @ evs\<rparr> \<and> filter is_cache_write evs = []"
    by (intro exI[of _ "[ProviderCall ts]"]) simp
qed

lemma retry_from_world:
  "retry_from p ts n a w = (r, w') \<Longrightarrow>
   \<exists>evs. w' = w\<lparr>trace := trace w @ evs\<rparr> \<and> filter is_cache_write evs = []"
proof (induction p ts n a w rule: retry_from.induct)
  case (1 p texts attempt w)
  then show ?case by (intro exI[of _ "[]"]) simp
next
  case (2 p texts r0 attempt w)
  show ?case
  proof (cases "p (n_calls (trace w)) texts")
    case (Some vs)
    with 2(2) have "w' = w\<lparr>trace := trace w @ [ProviderCall texts]\<rparr>"
      by (simp add: embed_documents_def emit_def)
    then show ?thesis by (intro exI[of _ "[ProviderCall texts]"]) simp
  next
    case None
    let ?w1 = "emit (ProviderCall texts) w"
    let ?w2 = "emit (Sleep (2 ^ attempt)) ?w1"
    from None 2(2) have run: "retry_from p texts r0 (Suc attempt) ?w2 = (r, w')"
      by (simp add: embed_documents_def)
    from None have "embed_documents p texts w = (None, ?w1)"
      by (simp add: embed_documents_def)
    from 2(1)[OF this[symmetric] refl run] obtain evs where
      evs: "w' = ?w2\<lparr>trace := trace ?w2 @ evs\<rparr>" "filter is_cache_write evs = []"
      by blast
    then show ?thesis
      by (intro exI[of _ "[ProviderCall texts, Sleep (2 ^ attempt)] @ evs"]) (simp add: emit_def)
  qed
qed

lemma embed_with_retry_quiet: "quiet (embed_with_retry p n)"
  unfolding quiet_def embed_with_retry_def using retry_from_world by blast

lemma embed_queued_world:
  assumes "quiet call" and "embed_queued call enc b w = (r, w')"
  shows "\<exists>evs. w' = w\<lparr>trace := trace w @ evs\<rparr> \<and> filter is_cache_write evs = []"
proof (cases "sum_list (map (\<lambda>t. length (enc t)) b) > 280000")
  case False
  with assms(2) have "call b w = (r, w')" by (simp add: embed_queued_def)
  with assms(1) show ?thesis unfolding quiet_def by blast
next
  case True
  let ?mid = "length b div 2"
  obtain r1 w1 where c1: "call (take ?mid b) w = (r1, w1)"
    by (cases "call (take ?mid b) w")
  from assms(1) c1 obtain e1 where
    e1: "w1 = w\<lparr>trace := trace w @ e1\<rparr>" "filter is_cache_write e1 = []"
    unfolding quiet_def by blast
  show ?thesis
  proof (cases r1)
    case (Inl e)
    with True c1 assms(2) have "w' = w1" by (simp add: embed_queued_def Let_def)
    with e1 show ?thesis by blast
  next
    case (Inr v1)
    obtain r2 w2 where c2: "call (drop ?mid b) w1 = (r2, w2)"
      by (cases "call (drop ?mid b) w1")
    from assms(1) c2 obtain e2 where
      e2: "w2 = w1\<lparr>trace := trace w1 @ e2\<rparr>" "filter is_cache_write e2 = []"
      unfolding quiet_def by blast
    from True c1 c2 Inr assms(2) have "w' = w2"
      by (cases r2) (simp_all add: embed_queued_def Let_def)
    with e1 e2 show ?thesis
      by (intro exI[of _ "e1 @ e2"]) simp
  qed
qed

lemma process_batch_world:
  assumes "quiet call" and "process_batch call enc h st w b = (r, w')"
  shows "\<exists>evs. w' = w\<lparr>trace := trace w @ evs\<rparr> \<and> filter is_cache_write evs = []"
proof -
  obtain c E N where st: "st = (c, E, N)" by (cases st)
  let ?Q = "filter (\<lambda>t. \<not> hit h c t) b"
  show ?thesis
  proof (cases "?Q = []")
    case True
    with assms(2) st have "w' = w" by (simp add: process_batch_def scan_batch)
    then show ?thesis by (intro exI[of _ "[]"]) simp
  next
    case False
    obtain r1 w1 where q: "embed_queued call enc ?Q w = (r1, w1)"
      by (cases "embed_queued call enc ?Q w")
    with False assms(2) st have "w' = w1"
      by (cases r1) (simp_all add: process_batch_def scan_batch)
    with embed_queued_world[OF assms(1) q] show ?thesis by simp
  qed
qed

lemma embed_batches_world:
  assumes "quiet call"
  shows "embed_batches call enc h st w bs = (r, w') \<Longrightarrow>
     \<exists>evs. w' = w\<lparr>trace := trace w @ evs\<rparr> \<and> filter is_cache_write evs = []"
proof (induction bs arbitrary: st w)
  case Nil
  then show ?case by (intro exI[of _ "[]"]) simp
next
  case (Cons b bs)
  obtain r1 w1 where pb: "process_batch call enc h st w b = (r1, w1)"
    by (cases "process_batch call enc h st w b")
  from process_batch_world[OF assms pb] obtain e1 where
    e1: "w1 = w\<lparr>trace := trace w @ e1\<rparr>" "filter is_cache_write e1 = []"
    by blast
  show ?case
  proof (cases r1)
    case (Inl e)
    with pb Cons.prems have "w' = w1" by simp
    with e1 show ?thesis by blast
  next
    case (Inr st1)
    with pb Cons.prems have "embed_batches call enc h st1 w1 bs = (r, w')" by simp
    from Cons.IH[OF this] obtain e2 where
      e2: "w' = w1\<lparr>trace := trace w1 @ e2\<rparr>" "filter is_cache_write e2 = []"
      by blast
    with e1 show ?thesis
      by (intro exI[of _ "e1 @ e2"]) simp
  qed
qed

lemma embed_direct_contract: "provider_contract p \<Longrightarrow> call_contract (embed_direct p)"
  unfolding provider_contract_def call_contract_def
  by (auto simp: embed_direct_def embed_documents_def split: option.splits)

lemma retry_from_contract:
  "provider_contract p \<Longrightarrow> retry_from p ts n a w = (Inr vs, w') \<Longrightarrow> length vs = length ts"
proof (induction p ts n a w rule: retry_from.induct)
  case (1 p texts attempt w)
  then show ?case by simp
next
  case (2 p texts r0 attempt w)
  show ?case
  proof (cases "p (n_calls (trace w)) texts")
    case (Some v)
    with 2(3) have "v = vs" by (simp add: embed_documents_def)
    with Some 2(2) show ?thesis unfolding provider_contract_def by blast
  next
    case None
    let ?w1 = "emit (ProviderCall texts) w"
    from None have e: "embed_documents p texts w = (None, ?w1)"
      by (simp add: embed_documents_def)
    from None 2(3) have "retry_from p texts r0 (Suc attempt) (emit (Sleep (2 ^ attempt)) ?w1) = (Inr vs, w')"
      by (simp add: embed_documents_def)
    from 2(1)[OF e[symmetric] refl 2(2) this] show ?thesis .
  qed
qed

lemma embed_with_retry_contract: "provider_contract p \<Longrightarrow> call_contract (embed_with_retry p n)"
  unfolding call_contract_def embed_with_retry_def using retry_from_contract by blast

lemma persist_cache_load:
  assumes "load_cache w = Inr c" and "cache_file w1 = cache_file w"
    and "N' = [] \<longrightarrow> c' = c"
  shows "load_cache (persist_cache c' N' w1) = Inr c'"
  using assms
  by (auto simp: persist_cache_def load_cache_def emit_def split: file_state.splits)

lemma persist_cache_world:
  "persist_cache c N w = w \<or>
   persist_cache c N w = w\<lparr>cache_file := Present c, trace := trace w @ [CacheWrite c]\<rparr>"
  by (simp add: persist_cache_def emit_def)

text \<open>The keys of the deduplicated texts: the stripped chunk texts, each once.\<close>

lemma dict_set_keys: "fst ` set (dict_set k v d) = insert k (fst ` set d)"
proof (induction d)
  case Nil
  then show ?case by simp
next
  case (Cons a d)
  obtain k0 v0 where a: "a = (k0, v0)" by (cases a)
  from Cons.IH show ?case
    by (cases "k0 = k") (simp_all add: a insert_commute)
qed

lemma dict_set_distinct: "distinct (map fst d) \<Longrightarrow> distinct (map fst (dict_set k v d))"
proof (induction d)
  case Nil
  then show ?case by simp
next
  case (Cons a d)
  obtain k0 v0 where a: "a = (k0, v0)" by (cases a)
  from Cons.prems a have k0: "k0 \<notin> fst ` set d" and d: "distinct (map fst d)" by auto
  show ?case
  proof (cases "k0 = k")
    case True
    with k0 d a show ?thesis by simp
  next
    case False
    with k0 have "k0 \<notin> fst ` set (dict_set k v d)" by (simp add: dict_set_keys)
    with False a Cons.IH[OF d] show ?thesis by simp
  qed
qed

lemma fold_dict_set_keys:
  "fst ` set (foldl (\<lambda>d doc. dict_set (f doc) (g doc) d) d0 docs) = fst ` set d0 \<union> f ` set docs"
  by (induction docs arbitrary: d0) (auto simp: dict_set_keys)

lemma fold_dict_set_distinct:
  "distinct (map fst d0) \<Longrightarrow>
   distinct (map fst (foldl (\<lambda>d doc. dict_set (f doc) (g doc) d) d0 docs))"
  by (induction docs arbitrary: d0) (simp_all add: dict_set_distinct)

lemma unique_pairs_keys:
  "set (map fst (unique_pairs docs)) = (\<lambda>d. strip (page_content d)) ` set docs
   \<and> distinct (map fst (unique_pairs docs))"
  using fold_dict_set_keys[of "\<lambda>d. strip (page_content d)" metadata "[]" docs]
    fold_dict_set_distinct[of "[]" "\<lambda>d. strip (page_content d)" metadata docs]
  by (simp add: unique_pairs_def)

lemma filter_short_keys:
  "map fst (filter_short enc n pairs) = filter (\<lambda>t. n < length (enc t)) (map fst pairs)"
  by (induction pairs) (auto simp: filter_short_def)

lemma embedded_texts_keys:
  "distinct (embedded_texts enc chunks)
   \<and> set (embedded_texts enc chunks)
       = {t \<in> (\<lambda>d. strip (page_content d)) ` set chunks. 2 < length (enc t)}"
  using unique_pairs_keys[of chunks]
  by (auto simp: embedded_texts_def filter_short_keys)

text \<open>A loop that completes, and the write that follows it.\<close>

lemma loop_persisted:
  assumes cc: "call_contract call" and q: "quiet call"
    and loop: "embed_batches call enc h (c, [], []) w bs = (Inr (c', E, N'), w0)"
  shows "persisted_after_loop h c (concat bs) w (persist_cache c' N' w0)"
proof -
  from embed_batches_inv[OF cc loop] have
    sub: "map_of c \<subseteq>\<^sub>m map_of c'" and cov: "covers h c' E (concat bs)"
    and same: "N' = [] \<longrightarrow> c' = c"
    by blast+
  from embed_batches_world[OF q loop] obtain evs where
    w0: "w0 = w\<lparr>trace := trace w @ evs\<rparr>" and evs: "filter is_cache_write evs = []"
    by blast
  show ?thesis
  proof (cases "list_all (hit h c) (concat bs)")
    case True
    then have "\<forall>t\<in>set (concat bs). hit h c t" by (simp add: list_all_iff)
    from embed_batches_hits[OF this, of call enc "[]" "[]" w] loop
    have "N' = []" "w0 = w" by simp_all
    with True show ?thesis by (simp add: persisted_after_loop_def persist_cache_def)
  next
    case False
    have "N' \<noteq> []"
    proof
      assume "N' = []"
      with same have "c' = c" by simp
      with cov have "list_all (hit h c) (concat bs)"
        by (auto simp: covers_def hit_def list_all_iff)
      with False show False by simp
    qed
    then have w1: "persist_cache c' N' w0
        = w\<lparr>cache_file := Present c', trace := trace w @ evs @ [CacheWrite c']\<rparr>"
      using w0 by (simp add: persist_cache_def emit_def)
    have hits: "list_all (hit h c') (concat bs)"
      using cov by (auto simp: covers_def hit_def list_all_iff)
    have old: "list_all (\<lambda>k. map_of c' k = map_of c k) (map fst c)"
      unfolding list_all_iff
    proof
      fix k assume "k \<in> set (map fst c)"
      then have "k \<in> dom (map_of c)" by (simp add: dom_map_of_conv_image_fst)
      with sub show "map_of c' k = map_of c k" by (simp add: map_le_def)
    qed
    from False hits old evs show ?thesis
      by (simp add: persisted_after_loop_def w1 Let_def)
  qed
qed

lemma embedding_step_Inr:
  assumes "embedding_step enc h p chunks c w = (Inr (filtered, E), w1)"
  shows "filtered = filter_short enc 2 (unique_pairs chunks) \<and> filtered \<noteq> []
       \<and> (\<exists>c' N' w0. embed_batches (embed_direct p) enc h (c, [], []) w
                         (batches 100 (map fst filtered)) = (Inr (c', E, N'), w0)
                     \<and> w1 = persist_cache c' N' w0)"
  using assms
  by (auto simp: embedding_step_def Let_def split: if_splits prod.splits sum.splits)

lemma build_embeddings_Inr:
  assumes "build_embeddings enc h p docs batch_size w = (Inr (filtered, E), w1)"
    and "load_cache w = Inr c"
  shows "filtered = filter_short enc 5 (unique_pairs docs) \<and> batch_size \<noteq> 0
       \<and> (\<exists>c' N' w0. embed_batches (embed_with_retry p 3) enc h (c, [], []) w
                         (if batch_size < 0 then [] else batches (nat batch_size) (map fst filtered))
                       = (Inr (c', E, N'), w0)
                     \<and> w1 = persist_cache c' N' w0)"
  using assms
  by (auto simp: build_embeddings_def Let_def split: if_splits prod.splits sum.splits)

lemma embedding_step_persisted:
  assumes "provider_contract p"
    and "embedding_step enc h p chunks c w = (Inr (filtered, E), w1)"
  shows "persisted_after_loop h c (map fst filtered) w w1"
proof -
  from embedding_step_Inr[OF assms(2)] obtain c' N' w0 where
    loop: "embed_batches (embed_direct p) enc h (c, [], []) w (batches 100 (map fst filtered))
             = (Inr (c', E, N'), w0)"
    and w1: "w1 = persist_cache c' N' w0"
    by blast
  from loop_persisted[OF embed_direct_contract[OF assms(1)] embed_direct_quiet loop] w1
  show ?thesis by (simp add: concat_batches)
qed

lemma build_embeddings_persisted:
  assumes "provider_contract p" and "0 < batch_size" and "load_cache w = Inr c"
    and "build_embeddings enc h p docs batch_size w = (Inr (filtered, E), w1)"
  shows "persisted_after_loop h c (map fst filtered) w w1"
proof -
  from build_embeddings_Inr[OF assms(4,3)] assms(2) obtain c' N' w0 where
    loop: "embed_batches (embed_with_retry p 3) enc h (c, [], []) w
             (batches (nat batch_size) (map fst filtered)) = (Inr (c', E, N'), w0)"
    and w1: "w1 = persist_cache c' N' w0"
    by auto
  from loop_persisted[OF embed_with_retry_contract[OF assms(1)] embed_with_retry_quiet loop]
    w1 assms(2)
  show ?thesis by (simp add: concat_batches)
qed

text \<open>A first embedding step that completes leaves every text in the cache file.\<close>

lemma embedding_step_success:
  assumes pc: "provider_contract p"
    and lc: "load_cache w = Inr c"
    and run: "embedding_step enc h p chunks c w = (Inr (filtered, E), w1)"
  shows "\<exists>c'. cache_file w1 = Present c' \<and> list_all (hit h c') (map fst filtered)"
proof -
  from embedding_step_Inr[OF run] obtain c' N' w0 where
    ne: "filtered \<noteq> []"
    and loop: "embed_batches (embed_direct p) enc h (c, [], []) w (batches 100 (map fst filtered))
             = (Inr (c', E, N'), w0)"
    and w1: "w1 = persist_cache c' N' w0"
    by blast
  from embed_batches_inv[OF embed_direct_contract[OF pc] loop] have
    cov: "covers h c' E (map fst filtered)" and same: "N' = [] \<longrightarrow> c' = c"
    by (simp_all add: concat_batches)
  from embed_batches_world[OF embed_direct_quiet loop] have cf: "cache_file w0 = cache_file w"
    by auto
  have lc1: "load_cache w1 = Inr c'"
    unfolding w1 by (rule persist_cache_load[OF lc cf same])
  from cov have hits: "list_all (hit h c') (map fst filtered)"
    by (auto simp: covers_def hit_def list_all_iff)
  from hits ne have "c' \<noteq> []"
    by (cases filtered) (auto simp: hit_def)
  with lc1 have "cache_file w1 = Present c'"
    by (auto simp: load_cache_def split: file_state.splits)
  with hits show ?thesis by blast
qed

text \<open>An embedding step whose texts are all in the cache.\<close>

lemma embedding_step_all_hits:
  assumes "filtered = filter_short enc 2 (unique_pairs chunks)" and "filtered \<noteq> []"
    and "list_all (hit h c) (map fst filtered)"
  shows "embedding_step enc h p chunks c w
           = (Inr (filtered, map (cached h c) (map fst filtered)), w)"
proof -
  from assms(1,2) have pne: "unique_pairs chunks \<noteq> []"
    by (auto simp: filter_short_def)
  from assms(3) have hits: "\<forall>t\<in>set (concat (batches 100 (map fst filtered))). hit h c t"
    by (simp add: concat_batches list_all_iff)
  have loop: "embed_batches (embed_direct p) enc h (c, [], []) w (batches 100 (map fst filtered))
                = (Inr (c, map (cached h c) (map fst filtered), []), w)"
    using embed_batches_hits[OF hits, of "embed_direct p" enc "[]" "[]" w]
    by (simp add: concat_batches)
  from assms(1,2) pne loop show ?thesis
    by (simp add: embedding_step_def Let_def persist_cache_def)
qed

text \<open>The steps after the embedding step: the rows go to the index, and the constructor raises.\<close>

lemma embed_and_index_after_step:
  assumes "embedding_step enc h p chunks c w = (Inr (filtered, E), w1)"
  shows "fst (embed_and_index enc h p chunks c w)
           \<in> {Inl IndexError, Inl DimensionMismatch, Inl TypeError}
       \<and> (snd (embed_and_index enc h p chunks c w) = w1
          \<or> snd (embed_and_index enc h p chunks c w) = w1\<lparr>trace := trace w1 @ [IndexAdd E]\<rparr>)"
  using assms
  by (auto simp: embed_and_index_def index_add_def faiss_constructor_def emit_def
           split: list.splits if_splits)

lemma build_faiss_index_after_step:
  assumes "build_embeddings enc h p docs batch_size w = (Inr (filtered, E), w1)"
  shows "fst (build_faiss_index enc h p docs batch_size w)
           \<in> {Inl IndexError, Inl DimensionMismatch, Inl TypeError}
       \<and> (snd (build_faiss_index enc h p docs batch_size w) = w1
          \<or> snd (build_faiss_index enc h p docs batch_size w)
              = w1\<lparr>trace := trace w1 @ [IndexAdd E]\<rparr>)"
  using assms
  by (auto simp: build_faiss_index_def index_add_def faiss_constructor_def emit_def
           split: list.splits if_splits)

lemma get_retriever_world:
  assumes "load_documents folder limit_files = Inr documents" and "load_cache w = Inr c"
  shows "snd (get_retriever enc dec sent_tokenize h p api_key folder reuse_index k limit_files w) = w
       \<or> snd (get_retriever enc dec sent_tokenize h p api_key folder reuse_index k limit_files w)
           = snd (embed_and_index enc h p
                    (semantic_token_chunk_documents enc dec sent_tokenize documents 300 50) c w)"
  using assms
  by (auto simp: get_retriever_def Let_def
           split: sum.splits if_splits prod.splits option.splits bool.splits)

text \<open>A retriever comes back from the branch that reuses a saved index, and from no other.\<close>

lemma get_retriever_returns_on_reuse_only:
  assumes "get_retriever enc dec sent_tokenize h p api_key folder reuse_index k limit_files w
             = (Inr r, w')"
  shows "reuse_index \<and> w' = w
       \<and> (\<exists>saved documents. index_dir w = Some saved
             \<and> load_documents folder limit_files = Inr documents
             \<and> r = \<lparr>retrievers =
                       [BM25 (semantic_token_chunk_documents enc dec sent_tokenize documents 300 50),
                        FaissSimilarity saved k],
                     weights = [1 / 2, 1 / 2]\<rparr>)"
proof -
  have never: "embed_and_index enc h p ch c w \<noteq> (Inr st, w2)" for ch c st w2
    using embed_and_index_raises[of enc h p ch c w] by auto
  from assms never show ?thesis
    by (auto simp: get_retriever_def Let_def
             split: sum.splits if_splits prod.splits option.splits bool.splits)
qed

lemma batches_Nil: "batches n [] = []"
  by (subst batches.simps) simp

lemma batches_Cons: "0 < n \<Longrightarrow> batches n (x # xs) = take n (x # xs) # batches n (drop n (x # xs))"
  by (subst batches.simps) simp

lemmas embed_eval = embed_and_index_def embedding_step_def batches_Nil batches_Cons
  process_batch_def scan_text_def embed_queued_def embed_direct_def embed_documents_def
  n_calls_def emit_def store_entries_def persist_cache_def index_add_def faiss_constructor_def
  docs_of_pairs_def load_cache_def id_hash_def length_provider_def flaky_provider_def
  empty_world_def embed_with_retry_def build_faiss_index_def build_embeddings_def

lemma retry_three: "retry_from p ts 3 a w = retry_from p ts (Suc (Suc (Suc 0))) a w"
  by (simp add: numeral_3_eq_3)

lemma sample_pairs:
  "unique_pairs [doc_a, doc_b] = [((str ''alpha one.''), metadata doc_a), ((str ''beta.''), metadata doc_b)]"
  by (simp add: unique_pairs_def doc_a_def doc_b_def string_eval)

lemma sample_filtered:
  "filter_short char_enc 2 [((str ''alpha one.''), ma), ((str ''beta.''), mb)] = [((str ''alpha one.''), ma), ((str ''beta.''), mb)]"
  by (simp add: filter_short_def char_enc_def)

lemma sample_docs_again:
  "\<lparr>page_content = (str ''alpha one.''), metadata = metadata doc_a\<rparr> = doc_a"
  "\<lparr>page_content = (str ''beta.''), metadata = metadata doc_b\<rparr> = doc_b"
  by (simp_all add: doc_a_def doc_b_def)

lemmas run_eval = get_retriever_def Let_def sample_documents sample_chunks sample_pairs
  sample_filtered sample_docs_again

lemma length_provider_contract: "provider_contract length_provider"
  by (simp add: provider_contract_def length_provider_def)

lemma sample_step_cold:
  "embedding_step char_enc id_hash length_provider [doc_a, doc_b] [] empty_world
     = (Inr ([((str ''alpha one.''), metadata doc_a), ((str ''beta.''), metadata doc_b)], [[10], [5]]),
        cold_world [((str ''alpha one.''), [10]), ((str ''beta.''), [5])]
          [ProviderCall [(str ''alpha one.''), (str ''beta.'')],
           CacheWrite [((str ''alpha one.''), [10]), ((str ''beta.''), [5])]])"
  by (simp add: run_eval embed_eval char_enc_def cold_world_def)

text \<open>
  C4. Let an embedding step of \<open>get_retriever\<close> complete, with a provider that returns one
  vector per text, on the chunks of a folder. Its texts are the stripped chunk texts of
  more than two tokens, each once, and the cache file it leaves holds, for every one of
  them, the key \<open>hash_text\<close> of that text. A second embedding step on the same chunks,
  from the world the first one left and with the cache read from that file, finds every
  text in the cache: it returns the cached vectors and leaves the world as it found it,
  whatever the provider would do now. The rest of the branch, and a whole second run of
  \<open>get_retriever\<close> on the folder, add no provider call and no cache write, whatever they
  return.
\<close>

theorem second_run_makes_no_provider_call:
  assumes "provider_contract p"
    and "load_documents folder limit_files = Inr documents"
    and "chunks = semantic_token_chunk_documents enc dec sent_tokenize documents 300 50"
    and "load_cache w = Inr cache"
    and "embedding_step enc hash_text p chunks cache w = (Inr (filtered, embeddings), w1)"
  shows "\<exists>cache1.
           cache_file w1 = Present cache1 \<and> load_cache w1 = Inr cache1
         \<and> distinct (map fst filtered)
         \<and> set (map fst filtered)
             = {t \<in> (\<lambda>d. strip (page_content d)) ` set chunks. 2 < length (enc t)}
         \<and> list_all (\<lambda>t. map_of cache1 (hash_text t) \<noteq> None) (map fst filtered)
         \<and> embedding_step enc hash_text p2 chunks cache1 w1
             = (Inr (filtered, map (\<lambda>t. the (map_of cache1 (hash_text t))) (map fst filtered)), w1)
         \<and> filter is_call (trace (snd (embed_and_index enc hash_text p2 chunks cache1 w1)))
             = filter is_call (trace w1)
         \<and> nothing_written w1 (snd (embed_and_index enc hash_text p2 chunks cache1 w1))
         \<and> filter is_call
               (trace (snd (get_retriever enc dec sent_tokenize hash_text p2 api_key folder
                              reuse_index k limit_files w1)))
             = filter is_call (trace w1)
         \<and> nothing_written w1
               (snd (get_retriever enc dec sent_tokenize hash_text p2 api_key folder
                       reuse_index k limit_files w1))"
proof -
  from embedding_step_success[OF assms(1,4,5)] obtain c1 where
    present: "cache_file w1 = Present c1" and hits: "list_all (hit hash_text c1) (map fst filtered)"
    by blast
  from present have lc1: "load_cache w1 = Inr c1"
    by (simp add: load_cache_def)
  from embedding_step_Inr[OF assms(5)] have
    filtered: "filtered = filter_short enc 2 (unique_pairs chunks)" and ne: "filtered \<noteq> []"
    by blast+
  from filtered have texts: "map fst filtered = embedded_texts enc chunks"
    by (simp add: embedded_texts_def)
  from embedded_texts_keys[of enc chunks] texts have
    keys: "distinct (map fst filtered)"
      "set (map fst filtered)
         = {t \<in> (\<lambda>d. strip (page_content d)) ` set chunks. 2 < length (enc t)}"
    by simp_all
  have hits': "list_all (\<lambda>t. map_of c1 (hash_text t) \<noteq> None) (map fst filtered)"
    using hits by (auto simp: hit_def list_all_iff)
  have second: "embedding_step enc hash_text p2 chunks c1 w1
      = (Inr (filtered, map (cached hash_text c1) (map fst filtered)), w1)"
    by (rule embedding_step_all_hits[OF filtered ne hits])
  then have second': "embedding_step enc hash_text p2 chunks c1 w1
      = (Inr (filtered, map (\<lambda>t. the (map_of c1 (hash_text t))) (map fst filtered)), w1)"
    by (simp add: cached_def)
  let ?w2 = "snd (embed_and_index enc hash_text p2 chunks c1 w1)"
  from embed_and_index_after_step[OF second] have
    "?w2 = w1 \<or> ?w2 = w1\<lparr>trace := trace w1 @ [IndexAdd (map (cached hash_text c1) (map fst filtered))]\<rparr>"
    by blast
  then have branch: "filter is_call (trace ?w2) = filter is_call (trace w1) \<and> nothing_written w1 ?w2"
    by (auto simp: nothing_written_def)
  let ?w3 = "snd (get_retriever enc dec sent_tokenize hash_text p2 api_key folder
                    reuse_index k limit_files w1)"
  from get_retriever_world[OF assms(2) lc1, of enc dec sent_tokenize hash_text p2 api_key reuse_index k]
    assms(3)
  have "?w3 = w1 \<or> ?w3 = ?w2" by simp
  with branch have whole: "filter is_call (trace ?w3) = filter is_call (trace w1)
      \<and> nothing_written w1 ?w3"
    by (auto simp: nothing_written_def)
  from present lc1 keys hits' second' branch whole show ?thesis by blast
qed

theorem second_run_makes_no_provider_call_witness:
  "provider_contract length_provider
   \<and> embedding_step char_enc id_hash length_provider [doc_a, doc_b] [] empty_world
     = (Inr ([((str ''alpha one.''), metadata doc_a), ((str ''beta.''), metadata doc_b)], [[10], [5]]),
        cold_world [((str ''alpha one.''), [10]), ((str ''beta.''), [5])]
          [ProviderCall [(str ''alpha one.''), (str ''beta.'')],
           CacheWrite [((str ''alpha one.''), [10]), ((str ''beta.''), [5])]])
   \<and> embedding_step char_enc id_hash (flaky_provider [0, 1, 2]) [doc_a, doc_b]
        [((str ''alpha one.''), [10]), ((str ''beta.''), [5])]
        (cold_world [((str ''alpha one.''), [10]), ((str ''beta.''), [5])]
           [ProviderCall [(str ''alpha one.''), (str ''beta.'')],
            CacheWrite [((str ''alpha one.''), [10]), ((str ''beta.''), [5])]])
     = (Inr ([((str ''alpha one.''), metadata doc_a), ((str ''beta.''), metadata doc_b)], [[10], [5]]),
        cold_world [((str ''alpha one.''), [10]), ((str ''beta.''), [5])]
          [ProviderCall [(str ''alpha one.''), (str ''beta.'')],
           CacheWrite [((str ''alpha one.''), [10]), ((str ''beta.''), [5])]])
   \<and> filter is_call
       (trace (snd (get_retriever char_enc char_dec split_sentences id_hash (flaky_provider [0, 1, 2])
                      (Some (str ''key'')) sample_folder False 7 None
                      (cold_world [((str ''alpha one.''), [10]), ((str ''beta.''), [5])]
                         [ProviderCall [(str ''alpha one.''), (str ''beta.'')],
                          CacheWrite [((str ''alpha one.''), [10]), ((str ''beta.''), [5])]]))))
     = [ProviderCall [(str ''alpha one.''), (str ''beta.'')]]"
proof -
  let ?c = "[((str ''alpha one.''), [10 :: real]), ((str ''beta.''), [5])]"
  let ?w1 = "cold_world ?c [ProviderCall [(str ''alpha one.''), (str ''beta.'')], CacheWrite ?c]"
  have h3: "[doc_a, doc_b]
      = semantic_token_chunk_documents char_enc char_dec split_sentences [doc_a, doc_b] 300 50"
    by (simp add: sample_chunks)
  have h4: "load_cache (empty_world :: doc_meta world) = Inr []"
    by (simp add: load_cache_def empty_world_def)
  from second_run_makes_no_provider_call
    [OF length_provider_contract sample_documents h3 h4 sample_step_cold,
     of "flaky_provider [0, 1, 2]" "Some (str ''key'')" False 7]
  obtain cache1 where
    c1: "cache_file ?w1 = Present cache1"
    and second: "embedding_step char_enc id_hash (flaky_provider [0, 1, 2]) [doc_a, doc_b] cache1 ?w1
      = (Inr ([((str ''alpha one.''), metadata doc_a), ((str ''beta.''), metadata doc_b)],
              map (\<lambda>t. the (map_of cache1 (id_hash t)))
                (map fst [((str ''alpha one.''), metadata doc_a), ((str ''beta.''), metadata doc_b)])), ?w1)"
    and calls: "filter is_call
       (trace (snd (get_retriever char_enc char_dec split_sentences id_hash (flaky_provider [0, 1, 2])
                      (Some (str ''key'')) sample_folder False 7 None ?w1)))
     = filter is_call (trace ?w1)"
    by blast
  from c1 have cache1: "cache1 = ?c"
    by (simp add: cold_world_def)
  have vs: "map (\<lambda>t. the (map_of ?c (id_hash t)))
              (map fst [((str ''alpha one.''), metadata doc_a), ((str ''beta.''), metadata doc_b)])
            = [[10], [5]]"
    by (simp add: id_hash_def)
  have tr: "filter is_call (trace ?w1) = [ProviderCall [(str ''alpha one.''), (str ''beta.'')]]"
    by (simp add: cold_world_def)
  from second calls show ?thesis
    unfolding cache1 vs tr
    using length_provider_contract sample_step_cold by blast
qed

text \<open>
  C1. A batch with a cache hit after a miss. The texts are \<open>alpha one.\<close> then \<open>beta.\<close>;
  the cache holds \<open>beta.\<close> with its vector \<open>[5]\<close>, and the provider embeds \<open>alpha one.\<close>
  as \<open>[10]\<close>. The hit is appended while the batch is scanned, the computed vector after
  the scan: the embedding step leaves the vectors \<open>[5]\<close>, \<open>[10]\<close> beside the texts
  \<open>alpha one.\<close>, \<open>beta.\<close>, and the rows go into the index in that order, \<open>[5]\<close> at position 0
  and \<open>[10]\<close> at position 1, while the documents for the store are \<open>alpha one.\<close> and \<open>beta.\<close>
  in this order. The run then ends in the exception of the constructor.
\<close>

theorem mixed_batch_misaligns_vectors:
  "get_retriever char_enc char_dec split_sentences id_hash length_provider (Some (str ''key''))
       sample_folder False 5 None (empty_world\<lparr>cache_file := Present [((str ''beta.''), [5])]\<rparr>)
     = (Inl TypeError,
        cold_world [((str ''beta.''), [5]), ((str ''alpha one.''), [10])]
          [ProviderCall [(str ''alpha one.'')],
           CacheWrite [((str ''beta.''), [5]), ((str ''alpha one.''), [10])],
           IndexAdd [[5], [10]]])
   \<and> embedding_step char_enc id_hash length_provider [doc_a, doc_b] [((str ''beta.''), [5])]
       (empty_world\<lparr>cache_file := Present [((str ''beta.''), [5])]\<rparr>)
     = (Inr ([((str ''alpha one.''), metadata doc_a), ((str ''beta.''), metadata doc_b)], [[5], [10]]),
        cold_world [((str ''beta.''), [5]), ((str ''alpha one.''), [10])]
          [ProviderCall [(str ''alpha one.'')],
           CacheWrite [((str ''beta.''), [5]), ((str ''alpha one.''), [10])]])
   \<and> docs_of_pairs [((str ''alpha one.''), metadata doc_a), ((str ''beta.''), metadata doc_b)]
     = [doc_a, doc_b]
   \<and> length_provider 0 [(str ''alpha one.''), (str ''beta.'')] = Some [[10], [5]]"
  by (simp add: run_eval embed_eval char_enc_def cold_world_def)

text \<open>
  C3. The provider fails on its first call only. \<open>get_retriever\<close> calls it once and
  fails; \<open>embed_with_retry\<close>, which only \<open>build_faiss_index\<close> uses, sleeps one second,
  calls again and returns the vectors.
\<close>

theorem get_retriever_does_not_retry:
  "get_retriever char_enc char_dec split_sentences id_hash (flaky_provider [0]) (Some (str ''key''))
       sample_folder False 5 None empty_world
     = (Inl ProviderFailure,
        \<lparr>cache_file = Absent, index_dir = None,
          trace = [ProviderCall [(str ''alpha one.''), (str ''beta.'')]]\<rparr>)
   \<and> embed_with_retry (flaky_provider [0]) 3 [(str ''alpha one.''), (str ''beta.'')] (empty_world :: doc_meta world)
     = (Inr [[10], [5]],
        \<lparr>cache_file = Absent, index_dir = None,
          trace = [ProviderCall [(str ''alpha one.''), (str ''beta.'')], Sleep 1,
                   ProviderCall [(str ''alpha one.''), (str ''beta.'')]]\<rparr>)"
proof
  show "get_retriever char_enc char_dec split_sentences id_hash (flaky_provider [0]) (Some (str ''key''))
       sample_folder False 5 None empty_world
     = (Inl ProviderFailure,
        \<lparr>cache_file = Absent, index_dir = None,
          trace = [ProviderCall [(str ''alpha one.''), (str ''beta.'')]]\<rparr>)"
    by (simp add: run_eval embed_eval char_enc_def)
next
  show "embed_with_retry (flaky_provider [0]) 3 [(str ''alpha one.''), (str ''beta.'')] (empty_world :: doc_meta world)
     = (Inr [[10], [5]],
        \<lparr>cache_file = Absent, index_dir = None,
          trace = [ProviderCall [(str ''alpha one.''), (str ''beta.'')], Sleep 1,
                   ProviderCall [(str ''alpha one.''), (str ''beta.'')]]\<rparr>)"
    by (simp add: retry_three embed_eval)
qed

lemma written_once_none:
  assumes "trace w' = trace w @ evs" and "filter is_cache_write evs = []"
    and "cache_file w' = cache_file w"
  shows "written_once_after_calls w w' \<and> nothing_written w w'"
  using assms by (simp add: written_once_after_calls_def nothing_written_def)

lemma written_once_one:
  assumes "trace w' = trace w @ evs @ CacheWrite c # fin" and "filter is_cache_write evs = []"
    and "filter is_cache_write fin = []" and "filter is_call fin = []"
    and "cache_file w' = Present c"
  shows "written_once_after_calls w w'"
proof -
  from assms(2) have "dropWhile (\<lambda>e. \<not> is_cache_write e) evs = []"
    by (simp add: filter_empty_conv)
  then have "dropWhile (\<lambda>e. \<not> is_cache_write e) (evs @ CacheWrite c # fin) = CacheWrite c # fin"
    by (simp add: dropWhile_append)
  with assms show ?thesis
    by (simp add: written_once_after_calls_def)
qed

text \<open>What the steps after the loop do to the world.\<close>

lemma after_loop_world:
  assumes w0: "w0 = w\<lparr>trace := trace w @ evs\<rparr>" and evs: "filter is_cache_write evs = []"
    and w': "w' = persist_cache c N w0
             \<or> w' = (persist_cache c N w0)\<lparr>trace := trace (persist_cache c N w0) @ [IndexAdd E]\<rparr>"
  shows "written_once_after_calls w w'"
proof -
  define w2 where "w2 = persist_cache c N w0"
  note w2 = w2_def
  from w' have w': "w' = w2 \<or> w' = w2\<lparr>trace := trace w2 @ [IndexAdd E]\<rparr>"
    by (simp add: w2_def)
  have fin: "\<exists>fin. trace w' = trace w2 @ fin \<and> filter is_cache_write fin = []
               \<and> filter is_call fin = [] \<and> cache_file w' = cache_file w2"
    using w'
  proof
    assume "w' = w2"
    then show ?thesis by (intro exI[of _ "[]"]) simp
  next
    assume "w' = w2\<lparr>trace := trace w2 @ [IndexAdd E]\<rparr>"
    then show ?thesis by (intro exI[of _ "[IndexAdd E]"]) simp
  qed
  then obtain fin where fin: "trace w' = trace w2 @ fin" "filter is_cache_write fin = []"
    "filter is_call fin = []" "cache_file w' = cache_file w2"
    by blast
  show ?thesis
  proof (cases "N = []")
    case True
    with w2 have "w2 = w0" by (simp add: persist_cache_def)
    with w0 fin evs show ?thesis
      using written_once_none[of w' w "evs @ fin"] by simp
  next
    case False
    with w2 have "w2 = w0\<lparr>cache_file := Present c, trace := trace w0 @ [CacheWrite c]\<rparr>"
      by (simp add: persist_cache_def emit_def)
    with w0 fin evs show ?thesis
      using written_once_one[of w' w evs c fin] by simp
  qed
qed

lemma embed_and_index_written_once:
  "written_once_after_calls w (snd (embed_and_index enc h p chunks c w))
   \<and> (fst (embed_and_index enc h p chunks c w) = Inl ProviderFailure
        \<longrightarrow> nothing_written w (snd (embed_and_index enc h p chunks c w)))"
proof -
  let ?filtered = "filter_short enc 2 (unique_pairs chunks)"
  let ?loop = "embed_batches (embed_direct p) enc h (c, [], []) w (batches 100 (map fst ?filtered))"
  have same: "written_once_after_calls w w \<and> nothing_written w w"
    using written_once_none[of w w "[]"] by simp
  show ?thesis
  proof (cases "unique_pairs chunks = [] \<or> ?filtered = []")
    case True
    then have "snd (embed_and_index enc h p chunks c w) = w"
      "fst (embed_and_index enc h p chunks c w) \<noteq> Inl ProviderFailure"
      by (auto simp: embed_and_index_def embedding_step_def Let_def)
    with same show ?thesis by simp
  next
    case False
    obtain r1 w0 where loop: "?loop = (r1, w0)" by (cases ?loop)
    from embed_batches_world[OF embed_direct_quiet loop] obtain evs where
      w0: "w0 = w\<lparr>trace := trace w @ evs\<rparr>" and evs: "filter is_cache_write evs = []"
      by blast
    show ?thesis
    proof (cases r1)
      case (Inl e)
      with False loop have "embed_and_index enc h p chunks c w = (Inl e, w0)"
        by (simp add: embed_and_index_def embedding_step_def Let_def)
      with w0 evs show ?thesis
        using written_once_none[of w0 w evs] by simp
    next
      case (Inr st1)
      obtain c' E N' where st1: "st1 = (c', E, N')" by (cases st1)
      let ?w1 = "persist_cache c' N' w0"
      from False loop Inr st1 have step: "embedding_step enc h p chunks c w = (Inr (?filtered, E), ?w1)"
        by (simp add: embedding_step_def Let_def)
      from embed_and_index_after_step[OF step] have
        res: "fst (embed_and_index enc h p chunks c w) \<noteq> Inl ProviderFailure"
        and w': "snd (embed_and_index enc h p chunks c w) = ?w1
           \<or> snd (embed_and_index enc h p chunks c w) = ?w1\<lparr>trace := trace ?w1 @ [IndexAdd E]\<rparr>"
        by auto
      from after_loop_world[OF w0 evs w'] res show ?thesis by simp
    qed
  qed
qed

lemma build_faiss_index_written_once:
  "written_once_after_calls w (snd (build_faiss_index enc h p docs batch_size w))
   \<and> (fst (build_faiss_index enc h p docs batch_size w) = Inl RetriesExhausted
        \<longrightarrow> nothing_written w (snd (build_faiss_index enc h p docs batch_size w)))"
proof -
  let ?filtered = "filter_short enc 5 (unique_pairs docs)"
  have same: "written_once_after_calls w w \<and> nothing_written w w"
    using written_once_none[of w w "[]"] by simp
  show ?thesis
  proof (cases "load_cache w")
    case (Inl e)
    then have "build_faiss_index enc h p docs batch_size w = (Inl e, w)"
      by (simp add: build_faiss_index_def build_embeddings_def)
    with same show ?thesis by simp
  next
    case (Inr c)
    show ?thesis
    proof (cases "batch_size = 0")
      case True
      with Inr have "build_faiss_index enc h p docs batch_size w = (Inl ValueError, w)"
        by (simp add: build_faiss_index_def build_embeddings_def Let_def)
      with same show ?thesis by simp
    next
      case False
      let ?loop = "embed_batches (embed_with_retry p 3) enc h (c, [], []) w
                     (if batch_size < 0 then [] else batches (nat batch_size) (map fst ?filtered))"
      obtain r1 w0 where loop: "?loop = (r1, w0)" by (cases ?loop)
      from embed_batches_world[OF embed_with_retry_quiet loop] obtain evs where
        w0: "w0 = w\<lparr>trace := trace w @ evs\<rparr>" and evs: "filter is_cache_write evs = []"
        by blast
      show ?thesis
      proof (cases r1)
        case (Inl e)
        with False loop \<open>load_cache w = Inr c\<close>
        have "build_faiss_index enc h p docs batch_size w = (Inl e, w0)"
          by (simp add: build_faiss_index_def build_embeddings_def Let_def)
        with w0 evs show ?thesis
          using written_once_none[of w0 w evs] by simp
      next
        case (Inr st1)
        obtain c' E N' where st1: "st1 = (c', E, N')" by (cases st1)
        let ?w1 = "persist_cache c' N' w0"
        from False loop Inr st1 \<open>load_cache w = Inr c\<close>
        have step: "build_embeddings enc h p docs batch_size w = (Inr (?filtered, E), ?w1)"
          by (simp add: build_embeddings_def Let_def)
        from build_faiss_index_after_step[OF step] have
          res: "fst (build_faiss_index enc h p docs batch_size w) \<noteq> Inl RetriesExhausted"
          and w': "snd (build_faiss_index enc h p docs batch_size w) = ?w1
             \<or> snd (build_faiss_index enc h p docs batch_size w)
                 = ?w1\<lparr>trace := trace ?w1 @ [IndexAdd E]\<rparr>"
          by auto
        from after_loop_world[OF w0 evs w'] res show ?thesis by simp
      qed
    qed
  qed
qed

text \<open>
  C7, as the code has it. A run of the embedding branch (in \<open>get_retriever\<close> and in
  \<open>build_faiss_index\<close>) writes the cache file at most once, after the last provider call
  of the loop, and the file then holds what was written; a run that a provider failure
  ends writes nothing. When the loop completes, with a provider that returns one vector
  per text, the new entries are persisted once, after the loop: unless every text was in
  the cache already (then nothing is written), the last event of the embedding step is
  its only write of the cache file, and the cache written has the entries it started
  with and an entry for every text.
\<close>

theorem cache_written_once_after_the_loop:
  "written_once_after_calls w (snd (embed_and_index enc hash_text p chunks cache w))
   \<and> (fst (embed_and_index enc hash_text p chunks cache w) = Inl ProviderFailure
        \<longrightarrow> nothing_written w (snd (embed_and_index enc hash_text p chunks cache w)))
   \<and> written_once_after_calls w (snd (build_faiss_index enc hash_text p chunks batch_size w))
   \<and> (fst (build_faiss_index enc hash_text p chunks batch_size w) = Inl RetriesExhausted
        \<longrightarrow> nothing_written w (snd (build_faiss_index enc hash_text p chunks batch_size w)))
   \<and> (provider_contract p
        \<and> embedding_step enc hash_text p chunks cache w = (Inr (filtered, embeddings), w1)
        \<longrightarrow> persisted_after_loop hash_text cache (map fst filtered) w w1)
   \<and> (provider_contract p \<and> 0 < batch_size \<and> load_cache w = Inr cache
        \<and> build_embeddings enc hash_text p chunks batch_size w = (Inr (filtered, embeddings), w1)
        \<longrightarrow> persisted_after_loop hash_text cache (map fst filtered) w w1)"
  using embed_and_index_written_once[of w enc hash_text p chunks cache]
    build_faiss_index_written_once[of w enc hash_text p chunks batch_size]
    embedding_step_persisted[of p enc hash_text chunks cache w filtered embeddings w1]
    build_embeddings_persisted[of p batch_size w cache enc hash_text chunks filtered embeddings w1]
  by blast

lemma two_chunks_pairs: "unique_pairs two_chunks = [((str ''alpha one.''), ()), ((str ''beta two.''), ())]"
  by (simp add: unique_pairs_def two_chunks_def string_eval)

lemma two_chunks_filtered:
  "filter_short char_enc n [((str ''alpha one.''), ()), ((str ''beta two.''), ())]
     = (if n < 9 then [((str ''alpha one.''), ()), ((str ''beta two.''), ())]
        else if n < 10 then [((str ''alpha one.''), ())] else [])"
  by (simp add: filter_short_def char_enc_def)

text \<open>
  C7, as stated, fails. With a batch size of one, the first batch computes a vector and
  leaves a new cache entry, and the cache file is still absent after it. When the
  provider then fails on the second batch the run ends with the file absent and no
  write in the trace; when the provider succeeds the only write follows both calls (and
  the run goes on to the index and to the exception of the constructor).
\<close>

theorem first_batch_entries_not_persisted:
  "process_batch (embed_with_retry (flaky_provider [1, 2, 3]) 3) char_enc id_hash ([], [], [])
       (empty_world :: unit world) [(str ''alpha one.'')]
     = (Inr ([((str ''alpha one.''), [10])], [[10]], [((str ''alpha one.''), [10])]),
        \<lparr>cache_file = Absent, index_dir = None, trace = [ProviderCall [(str ''alpha one.'')]]\<rparr>)
   \<and> build_faiss_index char_enc id_hash (flaky_provider [1, 2, 3]) two_chunks 1 empty_world
     = (Inl RetriesExhausted,
        \<lparr>cache_file = Absent, index_dir = None,
          trace = [ProviderCall [(str ''alpha one.'')],
                   ProviderCall [(str ''beta two.'')], Sleep 1,
                   ProviderCall [(str ''beta two.'')], Sleep 2,
                   ProviderCall [(str ''beta two.'')], Sleep 4]\<rparr>)
   \<and> build_faiss_index char_enc id_hash length_provider two_chunks 1 empty_world
     = (Inl TypeError,
        \<lparr>cache_file = Present [((str ''alpha one.''), [10]), ((str ''beta two.''), [9])], index_dir = None,
          trace = [ProviderCall [(str ''alpha one.'')], ProviderCall [(str ''beta two.'')],
                   CacheWrite [((str ''alpha one.''), [10]), ((str ''beta two.''), [9])],
                   IndexAdd [[10], [9]]]\<rparr>)"
  by (simp add: two_chunks_pairs two_chunks_filtered embed_eval retry_three char_enc_def
        Let_def)

lemma failing_runs:
  "embed_and_index char_enc id_hash (flaky_provider [0, 1, 2]) two_chunks [] empty_world
     = (Inl ProviderFailure,
        \<lparr>cache_file = Absent, index_dir = None,
          trace = [ProviderCall [(str ''alpha one.''), (str ''beta two.'')]]\<rparr>)"
  "build_faiss_index char_enc id_hash (flaky_provider [0, 1, 2]) two_chunks 1 empty_world
     = (Inl RetriesExhausted,
        \<lparr>cache_file = Absent, index_dir = None,
          trace = [ProviderCall [(str ''alpha one.'')], Sleep 1,
                   ProviderCall [(str ''alpha one.'')], Sleep 2,
                   ProviderCall [(str ''alpha one.'')], Sleep 4]\<rparr>)"
  by (simp_all add: two_chunks_pairs two_chunks_filtered embed_eval retry_three char_enc_def Let_def)

lemma writing_runs:
  "embedding_step char_enc id_hash length_provider two_chunks [] empty_world
     = (Inr ([((str ''alpha one.''), ()), ((str ''beta two.''), ())], [[10], [9]]),
        \<lparr>cache_file = Present [((str ''alpha one.''), [10]), ((str ''beta two.''), [9])], index_dir = None,
          trace = [ProviderCall [(str ''alpha one.''), (str ''beta two.'')],
                   CacheWrite [((str ''alpha one.''), [10]), ((str ''beta two.''), [9])]]\<rparr>)"
  "build_embeddings char_enc id_hash length_provider two_chunks 1 empty_world
     = (Inr ([((str ''alpha one.''), ()), ((str ''beta two.''), ())], [[10], [9]]),
        \<lparr>cache_file = Present [((str ''alpha one.''), [10]), ((str ''beta two.''), [9])], index_dir = None,
          trace = [ProviderCall [(str ''alpha one.'')], ProviderCall [(str ''beta two.'')],
                   CacheWrite [((str ''alpha one.''), [10]), ((str ''beta two.''), [9])]]\<rparr>)"
  by (simp_all add: two_chunks_pairs two_chunks_filtered embed_eval retry_three char_enc_def Let_def)

theorem cache_written_once_after_the_loop_witness:
  "fst (embed_and_index char_enc id_hash (flaky_provider [0, 1, 2]) two_chunks [] empty_world)
     = Inl ProviderFailure
   \<and> nothing_written empty_world
        (snd (embed_and_index char_enc id_hash (flaky_provider [0, 1, 2]) two_chunks [] empty_world))
   \<and> fst (build_faiss_index char_enc id_hash (flaky_provider [0, 1, 2]) two_chunks 1 empty_world)
     = Inl RetriesExhausted
   \<and> nothing_written empty_world
        (snd (build_faiss_index char_enc id_hash (flaky_provider [0, 1, 2]) two_chunks 1 empty_world))
   \<and> provider_contract length_provider
   \<and> persisted_after_loop id_hash [] [(str ''alpha one.''), (str ''beta two.'')] (empty_world :: unit world)
        \<lparr>cache_file = Present [((str ''alpha one.''), [10]), ((str ''beta two.''), [9])], index_dir = None,
          trace = [ProviderCall [(str ''alpha one.''), (str ''beta two.'')],
                   CacheWrite [((str ''alpha one.''), [10]), ((str ''beta two.''), [9])]]\<rparr>
   \<and> persisted_after_loop id_hash [] [(str ''alpha one.''), (str ''beta two.'')] (empty_world :: unit world)
        \<lparr>cache_file = Present [((str ''alpha one.''), [10]), ((str ''beta two.''), [9])], index_dir = None,
          trace = [ProviderCall [(str ''alpha one.'')], ProviderCall [(str ''beta two.'')],
                   CacheWrite [((str ''alpha one.''), [10]), ((str ''beta two.''), [9])]]\<rparr>
   \<and> \<not> list_all (hit id_hash []) [(str ''alpha one.''), (str ''beta two.'')]"
proof -
  have a: "fst (embed_and_index char_enc id_hash (flaky_provider [0, 1, 2]) two_chunks []
                  (empty_world :: unit world)) = Inl ProviderFailure"
    by (simp only: failing_runs fst_conv)
  have b: "fst (build_faiss_index char_enc id_hash (flaky_provider [0, 1, 2]) two_chunks 1
                  (empty_world :: unit world)) = Inl RetriesExhausted"
    by (simp only: failing_runs fst_conv)
  have lc: "load_cache (empty_world :: unit world) = Inr []"
    by (simp add: load_cache_def empty_world_def)
  have nh: "\<not> list_all (hit id_hash []) [(str ''alpha one.''), (str ''beta two.'')]"
    by (simp add: hit_def)
  have t: "map fst [((str ''alpha one.''), ()), ((str ''beta two.''), ())]
             = [(str ''alpha one.''), (str ''beta two.'')]"
    by simp
  from a b cache_written_once_after_the_loop
    [of empty_world char_enc id_hash "flaky_provider [0, 1, 2]" two_chunks "[]" 1]
  have fail: "nothing_written empty_world
        (snd (embed_and_index char_enc id_hash (flaky_provider [0, 1, 2]) two_chunks []
               (empty_world :: unit world)))
    \<and> nothing_written empty_world
        (snd (build_faiss_index char_enc id_hash (flaky_provider [0, 1, 2]) two_chunks 1
               (empty_world :: unit world)))"
    by blast
  from length_provider_contract lc writing_runs cache_written_once_after_the_loop
    [of empty_world char_enc id_hash length_provider two_chunks "[]" 1
        "[((str ''alpha one.''), ()), ((str ''beta two.''), ())]" "[[10], [9]]"]
  have ok: "persisted_after_loop id_hash [] [(str ''alpha one.''), (str ''beta two.'')] (empty_world :: unit world)
        \<lparr>cache_file = Present [((str ''alpha one.''), [10]), ((str ''beta two.''), [9])], index_dir = None,
          trace = [ProviderCall [(str ''alpha one.''), (str ''beta two.'')],
                   CacheWrite [((str ''alpha one.''), [10]), ((str ''beta two.''), [9])]]\<rparr>
   \<and> persisted_after_loop id_hash [] [(str ''alpha one.''), (str ''beta two.'')] (empty_world :: unit world)
        \<lparr>cache_file = Present [((str ''alpha one.''), [10]), ((str ''beta two.''), [9])], index_dir = None,
          trace = [ProviderCall [(str ''alpha one.'')], ProviderCall [(str ''beta two.'')],
                   CacheWrite [((str ''alpha one.''), [10]), ((str ''beta two.''), [9])]]\<rparr>"
    unfolding t by simp
  from a b fail ok nh length_provider_contract show ?thesis by blast
qed

section \<open>Documents with identical content\<close>

lemma chunk_steps_fit:
  "int (cnt + sum_list (map (\<lambda>s. length (enc s)) ss)) \<le> mx \<Longrightarrow>
   foldl (chunk_step enc dec mx ov md) (buf, cnt, out) ss
     = (buf @ ss, cnt + sum_list (map (\<lambda>s. length (enc s)) ss), out)"
proof (induction ss arbitrary: buf cnt)
  case Nil
  then show ?case by simp
next
  case (Cons s ss)
  from Cons.prems have fit: "int cnt + int (length (enc s)) \<le> mx" by simp
  then have step: "chunk_step enc dec mx ov md (buf, cnt, out) s
      = (buf @ [s], cnt + length (enc s), out)"
    by (simp add: chunk_step_def)
  from Cons.prems have "int ((cnt + length (enc s)) + sum_list (map (\<lambda>s. length (enc s)) ss)) \<le> mx"
    by (simp add: add.assoc)
  from Cons.IH[OF this, of "buf @ [s]"] step show ?case
    by (simp add: add.assoc)
qed

lemma chunk_document_fit:
  assumes "st (page_content d) \<noteq> []"
    and "int (sum_list (map (\<lambda>s. length (enc s)) (st (page_content d)))) \<le> mx"
  shows "chunk_document enc dec st mx ov out d
           = out @ [\<lparr>page_content = join_sp (st (page_content d)), metadata = metadata d\<rparr>]"
  using assms chunk_steps_fit[of 0 enc "st (page_content d)" mx dec ov "metadata d" "[]" out]
  by (simp add: chunk_document_def Let_def)

lemma chunk_documents_fit:
  assumes "\<forall>d\<in>set docs. page_content d = c" and "st c \<noteq> []"
    and "int (sum_list (map (\<lambda>s. length (enc s)) (st c))) \<le> mx"
  shows "foldl (chunk_document enc dec st mx ov) out docs
           = out @ map (\<lambda>d. \<lparr>page_content = join_sp (st c), metadata = metadata d\<rparr>) docs"
  using assms(1)
proof (induction docs arbitrary: out)
  case Nil
  then show ?case by simp
next
  case (Cons d ds)
  from Cons.prems have c: "page_content d = c" by simp
  with assms(2,3) have "chunk_document enc dec st mx ov out d
      = out @ [\<lparr>page_content = join_sp (st c), metadata = metadata d\<rparr>]"
    using chunk_document_fit[of st d enc mx dec ov out] by simp
  with Cons show ?case by simp
qed

lemma unique_pairs_same_text:
  "foldl (\<lambda>d doc. dict_set (strip (page_content doc)) (metadata doc) d) [(t, m)]
     (map (\<lambda>d. \<lparr>page_content = x, metadata = metadata d\<rparr>) docs)
   = [(t, last (m # map metadata docs))]" if "strip x = t"
  using that by (induction docs arbitrary: m) auto

lemma unique_pairs_identical:
  assumes "docs \<noteq> []"
  shows "unique_pairs (map (\<lambda>d. \<lparr>page_content = x, metadata = metadata d\<rparr>) docs)
           = [(strip x, metadata (last docs))]"
proof -
  from assms obtain d ds where docs: "docs = d # ds" by (cases docs) auto
  have "last (metadata d # map metadata ds) = metadata (last (d # ds))"
    by (simp add: last_map)
  with unique_pairs_same_text[of x "strip x" "metadata d" ds] docs show ?thesis
    by (simp add: unique_pairs_def)
qed

text \<open>
  Documents with the same content that fits in one chunk: one chunk per document, with
  the document's metadata, and one deduplicated text, with the metadata of the last.
\<close>

lemma identical_documents_one_text:
  assumes "list_all (\<lambda>d. page_content d = c) docs" and "docs \<noteq> []"
    and "sent_tokenize c \<noteq> []"
    and "int (sum_list (map (\<lambda>s. length (enc s)) (sent_tokenize c))) \<le> 300"
  shows "semantic_token_chunk_documents enc dec sent_tokenize docs 300 50
           = map (\<lambda>d. \<lparr>page_content = join_sp (sent_tokenize c), metadata = metadata d\<rparr>) docs
       \<and> unique_pairs (semantic_token_chunk_documents enc dec sent_tokenize docs 300 50)
           = [(strip (join_sp (sent_tokenize c)), metadata (last docs))]"
proof -
  from assms(1) have same: "\<forall>d\<in>set docs. page_content d = c"
    by (simp add: list_all_iff)
  have chunks: "semantic_token_chunk_documents enc dec sent_tokenize docs 300 50
      = map (\<lambda>d. \<lparr>page_content = join_sp (sent_tokenize c), metadata = metadata d\<rparr>) docs"
    using chunk_documents_fit[where st = sent_tokenize and enc = enc and docs = docs and c = c
        and mx = 300 and dec = dec and ov = 50 and out = "[]"] same assms(3,4)
    by (simp add: semantic_token_chunk_documents_def)
  with unique_pairs_identical[OF assms(2), of "join_sp (sent_tokenize c)"] show ?thesis
    by simp
qed

lemma provider_texts_append: "provider_texts (xs @ ys) = provider_texts xs @ provider_texts ys"
  by (simp add: provider_texts_def)

lemma batches_single: "batches 100 [t] = [[t]]"
  by (subst batches.simps, simp, subst batches.simps, simp)

text \<open>An embedding step on one deduplicated text sends at most that text to the provider.\<close>

lemma single_text_step:
  assumes "embedding_step enc h p chunks c w = (r, w')"
    and "unique_pairs chunks = [(t, m)]"
  shows "(provider_texts (trace w') = provider_texts (trace w)
          \<or> provider_texts (trace w') = provider_texts (trace w) @ [t])
       \<and> (\<forall>filtered E. r = Inr (filtered, E) \<longrightarrow> filtered = [(t, m)])"
  using assms
  by (auto simp: embedding_step_def Let_def filter_short_def batches_single process_batch_def
        scan_text_def embed_queued_def embed_direct_def embed_documents_def emit_def
        persist_cache_def provider_texts_def
      split: if_splits option.splits sum.splits prod.splits list.splits)

lemma twin_documents: "load_documents twin_folder None = Inr [doc_a, doc_a2]"
  by (simp add: load_documents_def twin_folder_def selected_files_def ends_with_def one_page_def
        page_texts_of_def string_eval document_of_def get_or_empty_def doc_a_def doc_a2_def
        no_meta_def)

lemma twin_chunks:
  "semantic_token_chunk_documents char_enc char_dec split_sentences [doc_a, doc_a2] 300 50
     = [doc_a, doc_a2]"
  by (simp add: chunk_eval string_eval doc_a_def doc_a2_def)

lemma twin_pairs: "unique_pairs [doc_a, doc_a2] = [((str ''alpha one.''), metadata doc_a2)]"
  by (simp add: unique_pairs_def doc_a_def doc_a2_def string_eval)

lemma twin_filtered: "filter_short char_enc 2 [((str ''alpha one.''), m)] = [((str ''alpha one.''), m)]"
  by (simp add: filter_short_def char_enc_def)

text \<open>
  C5. Two record files \<open>a.json\<close> and \<open>b.json\<close> with the same page text give two chunks,
  one per file with its metadata, and one deduplicated text with the metadata of
  \<open>b.json\<close>; the embedding step sends that text to the provider once and leaves one
  vector. The rest of the branch adds the vector to the index, builds one Document for
  the store (that of \<open>b.json\<close>) and ends in the exception of the constructor: no retriever
  is returned, with \<open>reuse_index\<close> false or true, the BM25 retriever over the two chunks is
  never built, and no retrieval takes place.
\<close>

theorem identical_documents_embedded_once_without_retriever:
  "load_documents twin_folder None = Inr [doc_a, doc_a2]
   \<and> semantic_token_chunk_documents char_enc char_dec split_sentences [doc_a, doc_a2] 300 50
     = [doc_a, doc_a2]
   \<and> map (\<lambda>d. (page_content d, m_source (metadata d))) [doc_a, doc_a2]
     = [((str ''alpha one.''), (str ''a.json'')), ((str ''alpha one.''), (str ''b.json''))]
   \<and> embedding_step char_enc id_hash length_provider [doc_a, doc_a2] [] empty_world
     = (Inr ([((str ''alpha one.''), metadata doc_a2)], [[10]]),
        cold_world [((str ''alpha one.''), [10])]
          [ProviderCall [(str ''alpha one.'')], CacheWrite [((str ''alpha one.''), [10])]])
   \<and> docs_of_pairs [((str ''alpha one.''), metadata doc_a2)] = [doc_a2]
   \<and> get_retriever char_enc char_dec split_sentences id_hash length_provider (Some (str ''key''))
       twin_folder False 5 None empty_world
     = (Inl TypeError,
        cold_world [((str ''alpha one.''), [10])]
          [ProviderCall [(str ''alpha one.'')], CacheWrite [((str ''alpha one.''), [10])],
           IndexAdd [[10]]])
   \<and> get_retriever char_enc char_dec split_sentences id_hash length_provider (Some (str ''key''))
       twin_folder True 5 None empty_world
     = (Inl TypeError,
        cold_world [((str ''alpha one.''), [10])]
          [ProviderCall [(str ''alpha one.'')], CacheWrite [((str ''alpha one.''), [10])],
           IndexAdd [[10]]])"
proof -
  have m: "map (\<lambda>d. (page_content d, m_source (metadata d))) [doc_a, doc_a2]
     = [((str ''alpha one.''), (str ''a.json'')), ((str ''alpha one.''), (str ''b.json''))]"
    by (simp add: doc_a_def doc_a2_def no_meta_def)
  have s: "embedding_step char_enc id_hash length_provider [doc_a, doc_a2] [] empty_world
     = (Inr ([((str ''alpha one.''), metadata doc_a2)], [[10]]),
        cold_world [((str ''alpha one.''), [10])]
          [ProviderCall [(str ''alpha one.'')], CacheWrite [((str ''alpha one.''), [10])]])"
    by (simp add: Let_def twin_pairs twin_filtered embed_eval char_enc_def cold_world_def)
  have g: "get_retriever char_enc char_dec split_sentences id_hash length_provider (Some (str ''key''))
       twin_folder reuse 5 None empty_world
     = (Inl TypeError,
        cold_world [((str ''alpha one.''), [10])]
          [ProviderCall [(str ''alpha one.'')], CacheWrite [((str ''alpha one.''), [10])],
           IndexAdd [[10]]])" for reuse
    by (cases reuse)
       (simp_all add: get_retriever_def Let_def twin_documents twin_chunks twin_pairs twin_filtered
          embed_eval char_enc_def cold_world_def)
  have d: "docs_of_pairs [((str ''alpha one.''), metadata doc_a2)] = [doc_a2]"
    by (simp add: docs_of_pairs_def doc_a2_def)
  from twin_documents twin_chunks m s d g show ?thesis by blast
qed

section \<open>Rank fusion\<close>

lemma contribution_in:
  "distinct (map fst r) \<Longrightarrow> (c, s) \<in> set r \<Longrightarrow> contribution r c = s"
  by (simp add: contribution_def)

lemma contribution_out: "c \<notin> fst ` set r \<Longrightarrow> contribution r c = 0"
proof -
  assume "c \<notin> fst ` set r"
  then have "map_of r c = None" by (simp add: map_of_eq_None_iff)
  then show ?thesis by (simp add: contribution_def)
qed

lemma contributions_own:
  "distinct (map fst r) \<Longrightarrow> map (\<lambda>c. contribution r c) (map fst r) = map snd r"
  by (auto simp: contribution_in)

lemma fused_first: "fused_score [1, 0] [r1, r2] c = contribution r1 c"
  by (simp add: fused_score_def)

lemma fused_second: "fused_score [0, 1] [r1, r2] c = contribution r2 c"
  by (simp add: fused_score_def)

lemma set_first_seen: "set (first_seen cs) = set cs"
  by (induction cs) auto

lemma distinct_first_seen: "distinct (first_seen cs)"
  by (induction cs) auto

lemma first_seen_distinct: "distinct cs \<Longrightarrow> first_seen cs = cs"
proof (induction cs)
  case Nil
  then show ?case by simp
next
  case (Cons c cs)
  then have "filter (\<lambda>x. x \<noteq> c) cs = cs"
    by (auto simp: filter_id_conv)
  with Cons show ?case by simp
qed

lemma first_seen_append:
  "first_seen (xs @ ys) = first_seen xs @ filter (\<lambda>y. y \<notin> set xs) (first_seen ys)"
proof (induction xs)
  case Nil
  then show ?case by simp
next
  case (Cons x xs)
  have "filter (\<lambda>y. y \<noteq> x) (filter (\<lambda>y. y \<notin> set xs) (first_seen ys))
          = filter (\<lambda>y. y \<notin> set (x # xs)) (first_seen ys)"
    by (auto intro: filter_cong)
  with Cons show ?case by simp
qed

lemma ranking_take_map:
  "ranking (take k (map (\<lambda>c. (c, g c)) cs)) = take k cs"
  by (simp add: ranking_def take_map comp_def)

lemma filter_only:
  "distinct zs \<Longrightarrow> k \<in> set zs \<Longrightarrow> \<forall>x\<in>set zs. P x \<longleftrightarrow> x = k \<Longrightarrow> filter P zs = [k]"
proof (induction zs)
  case Nil
  then show ?case by simp
next
  case (Cons z zs)
  show ?case
  proof (cases "z = k")
    case True
    with Cons.prems have "\<forall>x\<in>set zs. \<not> P x" by auto
    then have "filter P zs = []" by (simp add: filter_empty_conv)
    with True Cons.prems show ?thesis by simp
  next
    case False
    with Cons show ?thesis by auto
  qed
qed

lemma sort_key_front:
  fixes f :: "'c \<Rightarrow> real"
  assumes dx: "distinct xs" and dc: "distinct cs" and sub: "set cs \<subseteq> set xs"
    and inc: "sorted_wrt (\<lambda>a b. a < b) (map f cs)"
    and neg: "\<forall>c\<in>set cs. f c < 0" and zero: "\<forall>x\<in>set xs. x \<notin> set cs \<longrightarrow> f x = 0"
  shows "sort_key f xs = cs @ filter (\<lambda>x. x \<notin> set cs) xs"
proof (rule properties_for_sort_key)
  let ?rest = "filter (\<lambda>x. x \<notin> set cs) xs"
  let ?ys = "cs @ ?rest"
  have dys: "distinct ?ys" using dx dc by auto
  have sys: "set ?ys = set xs" using sub by auto
  from dys dx sys show "mset ?ys = mset xs"
    by (simp only: set_eq_iff_mset_eq_distinct[symmetric])
  have "sorted (map f cs)"
    using inc by (rule strict_sorted_imp_sorted)
  moreover have "sorted (map f ?rest)"
    using zero by (induction xs) auto
  ultimately show "sorted (map f ?ys)"
    using neg zero by (auto simp: sorted_append)
  have inj: "inj_on f (set cs)"
  proof -
    from inc have "distinct (map f cs)"
      by (simp add: strict_sorted_iff)
    then show ?thesis by (simp add: distinct_map)
  qed
  fix k assume k: "k \<in> set ?ys"
  show "filter (\<lambda>x. f k = f x) ?ys = filter (\<lambda>x. f k = f x) xs"
  proof (cases "k \<in> set cs")
    case True
    have only: "f k = f x \<longleftrightarrow> x = k" if "x \<in> set xs" for x
    proof (cases "x \<in> set cs")
      case True
      with \<open>k \<in> set cs\<close> inj show ?thesis by (auto dest: inj_onD)
    next
      case False
      with that zero neg \<open>k \<in> set cs\<close> show ?thesis by force
    qed
    from True sub have kx: "k \<in> set xs" by auto
    have "filter (\<lambda>x. f k = f x) xs = [k]"
      by (rule filter_only[OF dx kx]) (simp add: only)
    moreover have "filter (\<lambda>x. f k = f x) ?ys = [k]"
      by (rule filter_only[OF dys]) (use True only sys in auto)
    ultimately show ?thesis by simp
  next
    case False
    with k have kx: "k \<in> set xs" by auto
    with False zero have fk: "f k = 0" by simp
    have P: "f k = f x \<longleftrightarrow> x \<notin> set cs" if "x \<in> set xs" for x
      using that fk zero neg by force
    have a: "filter (\<lambda>x. f k = f x) xs = ?rest"
      by (rule filter_cong) (simp_all add: P)
    have "filter (\<lambda>x. f k = f x) cs = []"
      using fk neg by (auto simp: filter_empty_conv)
    moreover have "filter (\<lambda>x. f k = f x) ?rest = ?rest"
      unfolding filter_id_conv using P by auto
    ultimately show ?thesis using a by simp
  qed
qed

lemma sort_key_sorted_front:
  fixes f :: "'c \<Rightarrow> real"
  assumes "sorted (map f cs)" and "\<forall>c\<in>set cs. f c \<le> 0" and "\<forall>x\<in>set rest. f x = 0"
  shows "sort_key f (cs @ rest) = cs @ rest"
proof (rule sort_key_id_if_sorted)
  have "sorted (map f rest)"
    using assms(3) by (induction rest) auto
  with assms show "sorted (map f (cs @ rest))"
    by (auto simp: sorted_append)
qed

lemma first_weight_ranking:
  assumes "ordered_scores r1 k"
  shows "ranking (ensemble_retrieve [1, 0] [r1, r2] k) = ranking r1"
proof -
  let ?f = "\<lambda>c. - fused_score [1, 0] [r1, r2] c"
  let ?rest = "filter (\<lambda>y. y \<notin> set (ranking r1)) (first_seen (ranking r2))"
  from assms have d: "distinct (map fst r1)" and len: "length r1 = k"
    and ord: "sorted_wrt (\<lambda>a b. a \<ge> b) (map snd r1)" and pos: "\<forall>s\<in>set (map snd r1). 0 \<le> s"
    by (simp_all add: ordered_scores_def ranking_def list_all_iff)
  have cand: "candidates [r1, r2] = ranking r1 @ ?rest"
    using d by (simp add: candidates_def first_seen_append first_seen_distinct ranking_def)
  have keys: "map ?f (ranking r1) = map uminus (map snd r1)"
    using contributions_own[OF d] by (simp add: fused_first ranking_def comp_def)
  from ord have "sorted (map uminus (map snd r1))"
    by (simp add: sorted_wrt_map)
  with keys have s: "sorted (map ?f (ranking r1))" by simp
  have n: "\<forall>c\<in>set (ranking r1). ?f c \<le> 0"
  proof
    fix c assume "c \<in> set (ranking r1)"
    then obtain s where "(c, s) \<in> set r1" by (auto simp: ranking_def)
    with d pos show "?f c \<le> 0"
      by (auto simp: fused_first contribution_in)
  qed
  have z: "\<forall>x\<in>set ?rest. ?f x = 0"
    by (auto simp: fused_first ranking_def contribution_out)
  have "sort_key ?f (candidates [r1, r2]) = ranking r1 @ ?rest"
    unfolding cand by (rule sort_key_sorted_front[OF s n z])
  then show ?thesis
    using len by (simp add: ensemble_retrieve_def ranking_take_map) (simp add: ranking_def)
qed

lemma second_weight_ranking:
  assumes "strictly_ordered_scores r2 k"
  shows "ranking (ensemble_retrieve [0, 1] [r1, r2] k) = ranking r2"
proof -
  let ?f = "\<lambda>c. - fused_score [0, 1] [r1, r2] c"
  let ?xs = "candidates [r1, r2]"
  from assms have d: "distinct (map fst r2)" and len: "length r2 = k"
    and ord: "sorted_wrt (\<lambda>a b. a > b) (map snd r2)" and pos: "\<forall>s\<in>set (map snd r2). 0 < s"
    by (simp_all add: strictly_ordered_scores_def ranking_def list_all_iff)
  have dx: "distinct ?xs"
    by (simp add: candidates_def distinct_first_seen)
  have sub: "set (ranking r2) \<subseteq> set ?xs"
    by (auto simp: candidates_def set_first_seen)
  have keys: "map ?f (ranking r2) = map uminus (map snd r2)"
    using contributions_own[OF d] by (simp add: fused_second ranking_def comp_def)
  from ord have "sorted_wrt (\<lambda>a b. a < b) (map uminus (map snd r2))"
    by (simp add: sorted_wrt_map)
  with keys have inc: "sorted_wrt (\<lambda>a b. a < b) (map ?f (ranking r2))" by simp
  have neg: "\<forall>c\<in>set (ranking r2). ?f c < 0"
  proof
    fix c assume "c \<in> set (ranking r2)"
    then obtain s where "(c, s) \<in> set r2" by (auto simp: ranking_def)
    with d pos show "?f c < 0"
      by (auto simp: fused_second contribution_in)
  qed
  have zero: "\<forall>x\<in>set ?xs. x \<notin> set (ranking r2) \<longrightarrow> ?f x = 0"
    by (auto simp: fused_second ranking_def contribution_out)
  from d have dc: "distinct (ranking r2)" by (simp add: ranking_def)
  have "sort_key ?f ?xs = ranking r2 @ filter (\<lambda>x. x \<notin> set (ranking r2)) ?xs"
    by (rule sort_key_front[OF dx dc sub inc neg zero])
  then show ?thesis
    using len by (simp add: ensemble_retrieve_def ranking_take_map) (simp add: ranking_def)
qed

text \<open>
  C6, as the fusion of section 4.7 has it. The fused score is the weighted sum of the
  contributions. With weights (1, 0) the fused ranking is the first sub-retriever's
  ranking when that one has \<open>k\<close> distinct chunks with scores that are not negative and do
  not increase; with weights (0, 1) it is the second's when that one has \<open>k\<close> distinct
  chunks with positive, strictly decreasing scores.
\<close>

theorem sole_weight_gives_sub_retriever_ranking:
  "fused_score [w1, w2] [r1, r2] c = w1 * contribution r1 c + w2 * contribution r2 c
   \<and> (ordered_scores r1 k \<longrightarrow> ranking (ensemble_retrieve [1, 0] [r1, r2] k) = ranking r1)
   \<and> (strictly_ordered_scores r2 k \<longrightarrow> ranking (ensemble_retrieve [0, 1] [r1, r2] k) = ranking r2)"
  using first_weight_ranking[of r1 k r2] second_weight_ranking[of r2 k r1]
  by (simp add: fused_score_def)

lemmas fusion_eval = ensemble_retrieve_def candidates_def ranking_def fused_score_def
  contribution_def

text \<open>
  C6, as stated, fails on that fusion. With weights (0, 1) and \<open>k = 2\<close>, the second
  sub-retriever ranks \<open>a\<close> before \<open>b\<close> with equal scores, and the first one returns \<open>b\<close>
  too: the tie goes to the first-listed retriever, and the fused ranking is \<open>b\<close>, \<open>a\<close>.
  With weights (1, 0) and a first result shorter than \<open>k\<close>, a chunk that only the
  second sub-retriever returned enters the fused ranking with score zero.
\<close>

theorem sole_weight_ranking_differs:
  "ranking (ensemble_retrieve [0, 1] [[(''b'', 2), (''c'', 1)], [(''a'', 1), (''b'', 1)]] 2)
     = [''b'', ''a'']
   \<and> ranking [(''a'', 1 :: real), (''b'', 1)] = [''a'', ''b'']
   \<and> ranking (ensemble_retrieve [1, 0] [[(''a'', 1)], [(''b'', 1)]] 2) = [''a'', ''b'']
   \<and> ranking [(''a'', 1 :: real)] = [''a'']"
  by (simp add: fusion_eval)

theorem sole_weight_gives_sub_retriever_ranking_witness:
  "ordered_scores [(''b'', 2), (''c'', 1)] 2
   \<and> strictly_ordered_scores [(''a'', 3), (''b'', 1)] 2
   \<and> ranking (ensemble_retrieve [1, 0] [[(''b'', 2), (''c'', 1)], [(''a'', 3), (''b'', 1)]] 2)
       = [''b'', ''c'']
   \<and> ranking (ensemble_retrieve [0, 1] [[(''b'', 2), (''c'', 1)], [(''a'', 3), (''b'', 1)]] 2)
       = [''a'', ''b'']"
proof -
  have h1: "ordered_scores [(''b'', 2), (''c'', 1)] 2"
    by (simp add: ordered_scores_def ranking_def)
  have h2: "strictly_ordered_scores [(''a'', 3), (''b'', 1)] 2"
    by (simp add: strictly_ordered_scores_def ranking_def)
  from h1 h2
    sole_weight_gives_sub_retriever_ranking
      [of 1 0 "[(''b'', 2), (''c'', 1)]" "[(''a'', 3), (''b'', 1)]" "''b''" 2]
  show ?thesis
    by (simp add: ranking_def)
qed

section \<open>Retries, and the budget without overlap\<close>

text \<open>
  \<open>embed_with_retry\<close> with three attempts, in full: it returns the provider's vectors at
  the first attempt that succeeds, sleeps \<open>2 ^ attempt\<close> seconds after each failure, the
  last one too, and fails when the three attempts fail.
\<close>

lemma embed_with_retry_three_attempts:
  "embed_with_retry p 3 texts w =
     (let n = n_calls (trace w); call = ProviderCall texts in
      case p n texts of
        Some vs \<Rightarrow> (Inr vs, w\<lparr>trace := trace w @ [call]\<rparr>)
      | None \<Rightarrow>
          (case p (Suc n) texts of
             Some vs \<Rightarrow> (Inr vs, w\<lparr>trace := trace w @ [call, Sleep 1, call]\<rparr>)
           | None \<Rightarrow>
               (case p (Suc (Suc n)) texts of
                  Some vs \<Rightarrow> (Inr vs, w\<lparr>trace := trace w @ [call, Sleep 1, call, Sleep 2, call]\<rparr>)
                | None \<Rightarrow>
                    (Inl RetriesExhausted,
                     w\<lparr>trace := trace w @ [call, Sleep 1, call, Sleep 2, call, Sleep 4]\<rparr>))))"
  by (simp add: embed_with_retry_def retry_three embed_documents_def emit_def n_calls_def Let_def
           split: option.splits)

text \<open>
  Without overlap the count that the chunker keeps stays within the budget: every chunk
  joins sentences whose token counts sum to at most \<open>max_tokens\<close>, or is one sentence above
  \<open>max_tokens\<close>. The count is the sum over the sentences, not the token count of the joined
  text: the joining spaces are not counted, and the text of two sentences of five tokens
  has eleven tokens with one token per character.
\<close>

lemma joined_text_counts_the_spaces:
  "semantic_token_chunk_documents char_enc char_dec split_sentences
       [\<lparr>page_content = str ''aaaa. bbbb.'', metadata = ()\<rparr>] 10 0
     = [\<lparr>page_content = str ''aaaa. bbbb.'', metadata = ()\<rparr>]
   \<and> accounted char_enc (split_sentences (str ''aaaa. bbbb.'')) = 10
   \<and> length (char_enc (str ''aaaa. bbbb.'')) = 11"
  by (simp add: string_eval chunk_eval accounted_def)

lemma chunk_step_budget:
  assumes ov: "overlap_tokens \<le> 0"
    and inv: "cnt = accounted enc buf" "in_budget enc mx buf" "\<forall>ch\<in>set out. budgeted_chunk enc mx ch"
    and step: "chunk_step enc dec mx overlap_tokens md (buf, cnt, out) s = (buf', cnt', out')"
  shows "cnt' = accounted enc buf' \<and> in_budget enc mx buf' \<and> (\<forall>ch\<in>set out'. budgeted_chunk enc mx ch)"
proof (cases "int cnt + int (length (enc s)) \<le> mx")
  case True
  with step have "buf' = buf @ [s]" "cnt' = cnt + length (enc s)" "out' = out"
    by (simp_all add: chunk_step_def)
  with True inv show ?thesis
    by (simp add: accounted_def in_budget_def)
next
  case False
  with step ov have eq: "buf' = [s]" "cnt' = length (enc s)"
    "out' = out @ [\<lparr>page_content = join_sp buf, metadata = md\<rparr>]"
    by (simp_all add: chunk_step_def Let_def)
  from inv(2) have "budgeted_chunk enc mx \<lparr>page_content = join_sp buf, metadata = md\<rparr>"
    unfolding budgeted_chunk_def by (intro exI[of _ buf]) simp
  with eq inv(3) show ?thesis
    by (auto simp: accounted_def in_budget_def)
qed

lemma chunk_steps_budget:
  assumes ov: "overlap_tokens \<le> 0"
  shows "cnt = accounted enc buf \<Longrightarrow> in_budget enc mx buf
     \<Longrightarrow> \<forall>ch\<in>set out. budgeted_chunk enc mx ch
     \<Longrightarrow> foldl (chunk_step enc dec mx overlap_tokens md) (buf, cnt, out) ss = (buf', cnt', out')
     \<Longrightarrow> in_budget enc mx buf' \<and> (\<forall>ch\<in>set out'. budgeted_chunk enc mx ch)"
proof (induction ss arbitrary: buf cnt out)
  case Nil
  then show ?case by simp
next
  case (Cons s ss)
  obtain b1 c1 o1 where st: "chunk_step enc dec mx overlap_tokens md (buf, cnt, out) s = (b1, c1, o1)"
    by (cases "chunk_step enc dec mx overlap_tokens md (buf, cnt, out) s")
  from chunk_step_budget[OF ov Cons.prems(1,2,3) st] have
    i: "c1 = accounted enc b1" "in_budget enc mx b1" "\<forall>ch\<in>set o1. budgeted_chunk enc mx ch"
    by auto
  from Cons.prems(4) st have "foldl (chunk_step enc dec mx overlap_tokens md) (b1, c1, o1) ss = (buf', cnt', out')"
    by simp
  from Cons.IH[OF i this] show ?case .
qed

lemma chunk_document_budget:
  assumes "overlap_tokens \<le> 0" and "0 \<le> mx" and "\<forall>ch\<in>set out. budgeted_chunk enc mx ch"
  shows "\<forall>ch\<in>set (chunk_document enc dec st mx overlap_tokens out doc). budgeted_chunk enc mx ch"
proof -
  let ?r = "foldl (chunk_step enc dec mx overlap_tokens (metadata doc)) ([], 0, out) (st (page_content doc))"
  obtain b c out' where r: "?r = (b, c, out')" by (cases ?r)
  have start: "(0 :: nat) = accounted enc []" "in_budget enc mx []"
    using assms(2) by (simp_all add: accounted_def in_budget_def)
  from chunk_steps_budget[OF assms(1) start assms(3) r] have
    i: "in_budget enc mx b" "\<forall>ch\<in>set out'. budgeted_chunk enc mx ch"
    by auto
  from i(1) have "budgeted_chunk enc mx \<lparr>page_content = join_sp b, metadata = metadata doc\<rparr>"
    unfolding budgeted_chunk_def by (intro exI[of _ b]) simp
  with i(2) r show ?thesis
    by (auto simp: chunk_document_def Let_def)
qed

lemma chunks_within_budget_without_overlap:
  assumes "overlap_tokens \<le> 0" and "0 \<le> max_tokens"
  shows "\<forall>ch\<in>set (semantic_token_chunk_documents enc dec sent_tokenize documents max_tokens overlap_tokens).
           budgeted_chunk enc max_tokens ch"
proof -
  have "\<forall>ch\<in>set out. budgeted_chunk enc max_tokens ch \<Longrightarrow>
        \<forall>ch\<in>set (foldl (chunk_document enc dec sent_tokenize max_tokens overlap_tokens) out documents).
           budgeted_chunk enc max_tokens ch" for out
  proof (induction documents arbitrary: out)
    case Nil
    then show ?case by simp
  next
    case (Cons d ds)
    from chunk_document_budget[OF assms Cons.prems, of dec sent_tokenize d]
    show ?case using Cons.IH by simp
  qed
  from this[of "[]"] show ?thesis
    by (simp add: semantic_token_chunk_documents_def)
qed

end
